theory Spec2Isabelle
  imports Main "HOL-Library.Word"
begin

section \<open>The pool allocator of \<^verbatim>\<open>allocator.c\<close>\<close>

text \<open>
  The allocator manages a caller-supplied pool through three globals (\<^verbatim>\<open>base\<close>,
  \<^verbatim>\<open>used\<close>, \<^verbatim>\<open>free_list\<close>) and a header \<^verbatim>\<open>md\<close> in front of every payload.

  Conventions of the embedding (LP64 target):
  \<^item> \<^verbatim>\<open>size_t\<close> and pointers are 64-bit words; all arithmetic on them wraps, as the
    unsigned arithmetic of C does; \<^verbatim>\<open>NULL\<close> is the word 0;
  \<^item> \<^verbatim>\<open>sizeof(md)\<close> is 32 (8 bytes of \<^verbatim>\<open>size\<close>, 4 of \<^verbatim>\<open>check_free\<close> and 4 of padding,
    two pointers of 8 bytes);
  \<^item> memory is a typed store: \<^verbatim>\<open>hdr\<close> gives the \<^verbatim>\<open>md\<close> object read at an address,
    \<^verbatim>\<open>bytes\<close> the payload byte at an address. A header never initialised holds
    whatever the store holds there, as in C. The two components are independent:
    an assignment to a header field changes that header only, and \<^verbatim>\<open>memcpy\<close> changes
    payload bytes only. For headers and payloads that do not overlap in memory this
    is what the C code does; the byte layout of a header is not modelled;
  \<^item> the globals and the memory form one record that every operation takes and returns.
\<close>

subsection \<open>Data\<close>

type_synonym addr = "64 word"
type_synonym size_t = "64 word"

record md =
  size_md :: size_t
  check_free :: "32 word"
  "next" :: addr
  prev :: addr

record allocator =
  base :: addr
  used :: size_t
  free_list :: addr
  hdr :: "addr \<Rightarrow> md"
  bytes :: "addr \<Rightarrow> 8 word"

definition sizeof_md :: size_t where
  "sizeof_md = 32"

definition CAP :: size_t where
  "CAP = 128 * 1024 * 1024"

subsection \<open>Operations\<close>

text \<open>\<^verbatim>\<open>allocator_init\<close> and \<^verbatim>\<open>allocator_reset\<close> (lines 17 to 27 of \<^verbatim>\<open>allocator.c\<close>).\<close>

definition allocator_init :: "allocator \<Rightarrow> addr \<Rightarrow> allocator" where
  "allocator_init st newbase = st\<lparr>base := newbase, used := 0, free_list := 0\<rparr>"

definition allocator_reset :: "allocator \<Rightarrow> allocator" where
  "allocator_reset st = st\<lparr>used := 0, free_list := 0\<rparr>"

text \<open>Assignments to the fields of the header at an address.\<close>

definition set_size :: "addr \<Rightarrow> size_t \<Rightarrow> allocator \<Rightarrow> allocator" where
  "set_size a v st = st\<lparr>hdr := (hdr st)(a := (hdr st a)\<lparr>size_md := v\<rparr>)\<rparr>"

definition set_check_free :: "addr \<Rightarrow> 32 word \<Rightarrow> allocator \<Rightarrow> allocator" where
  "set_check_free a v st = st\<lparr>hdr := (hdr st)(a := (hdr st a)\<lparr>check_free := v\<rparr>)\<rparr>"

definition set_next :: "addr \<Rightarrow> addr \<Rightarrow> allocator \<Rightarrow> allocator" where
  "set_next a v st = st\<lparr>hdr := (hdr st)(a := (hdr st a)\<lparr>next := v\<rparr>)\<rparr>"

definition set_prev :: "addr \<Rightarrow> addr \<Rightarrow> allocator \<Rightarrow> allocator" where
  "set_prev a v st = st\<lparr>hdr := (hdr st)(a := (hdr st a)\<lparr>prev := v\<rparr>)\<rparr>"

text \<open>\<^verbatim>\<open>insert_into_free_list\<close> and \<^verbatim>\<open>remove_from_free_list\<close> (lines 30 to 50), one
  state per statement.\<close>

definition insert_into_free_list :: "allocator \<Rightarrow> addr \<Rightarrow> allocator" where
  "insert_into_free_list st block =
     (let st1 = set_check_free block 1 st;
          st2 = set_next block (free_list st1) st1;
          st3 = set_prev block 0 st2;
          st4 = (if free_list st3 \<noteq> 0 then set_prev (free_list st3) block st3 else st3)
      in st4\<lparr>free_list := block\<rparr>)"

definition remove_from_free_list :: "allocator \<Rightarrow> addr \<Rightarrow> allocator" where
  "remove_from_free_list st block =
     (let st1 = (if prev (hdr st block) \<noteq> 0
                 then set_next (prev (hdr st block)) (next (hdr st block)) st
                 else st\<lparr>free_list := next (hdr st block)\<rparr>)
      in if next (hdr st1 block) \<noteq> 0
         then set_prev (next (hdr st1 block)) (prev (hdr st1 block)) st1
         else st1)"

text \<open>
  \<^verbatim>\<open>merge_blocks\<close> (lines 53 to 68) in its two steps. The pointer comparison is the unsigned comparison
  of the two addresses. The assignment \<^verbatim>\<open>block = prev_block\<close> that ends the second
  step changes a local variable only.
\<close>

definition merge_next :: "allocator \<Rightarrow> addr \<Rightarrow> allocator" where
  "merge_next st block =
     (let next_block = block + sizeof_md + size_md (hdr st block)
      in if next_block < base st + used st \<and> check_free (hdr st next_block) \<noteq> 0
         then let st1 = remove_from_free_list st next_block
              in set_size block (size_md (hdr st1 block) + (sizeof_md + size_md (hdr st1 next_block))) st1
         else st)"

definition merge_prev :: "allocator \<Rightarrow> addr \<Rightarrow> allocator" where
  "merge_prev st block =
     (if prev (hdr st block) \<noteq> 0 \<and> check_free (hdr st (prev (hdr st block))) \<noteq> 0
      then let prev_block = prev (hdr st block);
               st1 = remove_from_free_list st prev_block
           in set_size prev_block (size_md (hdr st1 prev_block) + (sizeof_md + size_md (hdr st1 block))) st1
      else st)"

definition merge_blocks :: "allocator \<Rightarrow> addr \<Rightarrow> allocator" where
  "merge_blocks st block = merge_prev (merge_next st block) block"

text \<open>
  The search loop of \<^verbatim>\<open>mymalloc\<close> (lines 77 to 84): the address of the first header on the chain from
  \<^verbatim>\<open>current\<close> whose size suffices, or \<^verbatim>\<open>NULL\<close> at the end of the chain. On a cyclic
  chain without a fitting block the loop does not return: the value is \<open>None\<close>.
\<close>

partial_function (option) first_fit :: "(addr \<Rightarrow> md) \<Rightarrow> size_t \<Rightarrow> addr \<Rightarrow> addr option" where
  "first_fit h sz current =
     (if current \<noteq> 0
      then (if sz \<le> size_md (h current) then Some current
            else first_fit h sz (next (h current)))
      else Some 0)"

text \<open>\<^verbatim>\<open>mymalloc\<close> (lines 71 to 97): the block found by the loop, or else the bump
  path behind the capacity test. The result is the new state and the pointer returned.\<close>

definition mymalloc :: "allocator \<Rightarrow> size_t \<Rightarrow> (allocator \<times> addr) option" where
  "mymalloc st sz =
     (let total = sizeof_md + sz
      in case first_fit (hdr st) sz (free_list st) of
           None \<Rightarrow> None
         | Some current \<Rightarrow>
             if current \<noteq> 0
             then Some (set_check_free current 0 (remove_from_free_list st current),
                        current + sizeof_md)
             else if CAP < used st + total then Some (st, 0)
             else let metadata = base st + used st;
                      st1 = set_size metadata sz st;
                      st2 = set_check_free metadata 0 st1
                  in Some (st2\<lparr>used := used st2 + total\<rparr>, metadata + sizeof_md))"

text \<open>\<^verbatim>\<open>myfree\<close> (lines 100 to 109).\<close>

definition myfree :: "allocator \<Rightarrow> addr \<Rightarrow> allocator" where
  "myfree st ptr =
     (if ptr = 0 then st
      else let metadata = ptr - sizeof_md
           in merge_blocks (insert_into_free_list st metadata) metadata)"

text \<open>\<^verbatim>\<open>memcpy(dst, src, n)\<close> on the payload bytes: the \<open>n\<close> bytes from \<open>dst\<close> on
  receive the bytes that were at the same distance from \<open>src\<close>.\<close>

definition memcpy :: "addr \<Rightarrow> addr \<Rightarrow> size_t \<Rightarrow> allocator \<Rightarrow> allocator" where
  "memcpy dst src n st =
     st\<lparr>bytes := (\<lambda>a. if a - dst < n then bytes st (src + (a - dst)) else bytes st a)\<rparr>"

text \<open>\<^verbatim>\<open>myrealloc\<close> (lines 112 to 143).\<close>

definition myrealloc :: "allocator \<Rightarrow> addr \<Rightarrow> size_t \<Rightarrow> (allocator \<times> addr) option" where
  "myrealloc st ptr sz =
     (if sz = 0 then Some (myfree st ptr, 0)
      else if ptr = 0 then mymalloc st sz
      else let metadata = ptr - sizeof_md;
               old_size = size_md (hdr st metadata);
               end = base st + used st
           in if ptr + old_size = end
              then let st1 = (if old_size < sz
                              then st\<lparr>used := used st + (sz - old_size)\<rparr>
                              else st\<lparr>used := used st - (old_size - sz)\<rparr>)
                   in Some (set_size metadata sz st1, ptr)
              else case mymalloc st sz of
                     None \<Rightarrow> None
                   | Some (st1, new_ptr) \<Rightarrow>
                       if new_ptr \<noteq> 0
                       then Some (myfree (memcpy new_ptr ptr (if old_size < sz then old_size else sz) st1) ptr,
                                  new_ptr)
                       else Some (st1, new_ptr))"

subsection \<open>The free list as a list of header addresses\<close>

text \<open>
  \<open>dseg h pv p as q\<close>: following \<^verbatim>\<open>next\<close> from \<open>p\<close> visits exactly the non-null headers
  \<open>as\<close> and arrives at \<open>q\<close>, and every \<^verbatim>\<open>prev\<close> on the way points to the header
  visited before (\<open>pv\<close> for the first). The free list holds \<open>fl\<close> when the chain from
  \<^verbatim>\<open>free_list\<close> visits \<open>fl\<close>, ends in \<^verbatim>\<open>NULL\<close>, and repeats no header.
\<close>

fun dseg :: "(addr \<Rightarrow> md) \<Rightarrow> addr \<Rightarrow> addr \<Rightarrow> addr list \<Rightarrow> addr \<Rightarrow> bool" where
  "dseg h pv p [] q \<longleftrightarrow> p = q"
| "dseg h pv p (a # as) q \<longleftrightarrow>
     p = a \<and> a \<noteq> 0 \<and> prev (h a) = pv \<and> dseg h a (next (h a)) as q"

definition free_chain :: "allocator \<Rightarrow> addr list \<Rightarrow> bool" where
  "free_chain st fl \<longleftrightarrow> dseg (hdr st) 0 (free_list st) fl 0 \<and> distinct fl"

subsection \<open>The two invariants of the data model\<close>

text \<open>
  Contiguity: starting at offset 0, each block (header and payload) ends where the
  next one starts, and the last one ends exactly at \<^verbatim>\<open>used\<close>. Offsets are natural
  numbers, so a block that would run past \<^verbatim>\<open>used\<close> is seen as such.
\<close>

function tiled :: "(addr \<Rightarrow> md) \<Rightarrow> addr \<Rightarrow> nat \<Rightarrow> nat \<Rightarrow> bool" where
  "tiled h b u off =
     (if off = u then True
      else if u < off + 32 then False
      else tiled h b u (off + 32 + unat (size_md (h (b + of_nat off)))))"
  by pat_completeness auto
termination
  by (relation "measure (\<lambda>(h, b, u, off). u - off)") auto

definition contiguous :: "allocator \<Rightarrow> bool" where
  "contiguous st \<longleftrightarrow> tiled (hdr st) (base st) (unat (used st)) 0"

text \<open>
  Membership: the blocks within \<open>[0, used)\<close> are the headers met when walking from
  offset 0 in steps of header plus payload while the offset is below \<^verbatim>\<open>used\<close>; a
  header is linked into the free list when the chain of \<^verbatim>\<open>next\<close> pointers from
  \<^verbatim>\<open>free_list\<close> reaches it.
\<close>

function block_offs :: "(addr \<Rightarrow> md) \<Rightarrow> addr \<Rightarrow> nat \<Rightarrow> nat \<Rightarrow> nat list" where
  "block_offs h b u off =
     (if u \<le> off then []
      else off # block_offs h b u (off + 32 + unat (size_md (h (b + of_nat off)))))"
  by pat_completeness auto
termination
  by (relation "measure (\<lambda>(h, b, u, off). u - off)") auto

definition blocks :: "allocator \<Rightarrow> addr list" where
  "blocks st = map (\<lambda>off. base st + of_nat off) (block_offs (hdr st) (base st) (unat (used st)) 0)"

inductive linked :: "(addr \<Rightarrow> md) \<Rightarrow> addr \<Rightarrow> addr \<Rightarrow> bool" for h :: "addr \<Rightarrow> md" where
  here: "p \<noteq> 0 \<Longrightarrow> linked h p p"
| later: "p \<noteq> 0 \<Longrightarrow> linked h (next (h p)) a \<Longrightarrow> linked h p a"

definition membership :: "allocator \<Rightarrow> bool" where
  "membership st \<longleftrightarrow>
     (\<forall>a \<in> set (blocks st). linked (hdr st) (free_list st) a \<longleftrightarrow> check_free (hdr st a) \<noteq> 0)"

subsection \<open>Concrete pools\<close>

text \<open>
  A pool at address 4096 whose payload byte at address \<open>a\<close> is the low byte of \<open>a\<close>,
  with the given \<^verbatim>\<open>used\<close>, \<^verbatim>\<open>free_list\<close> and headers; \<open>fresh\<close> is such a pool right
  after \<^verbatim>\<open>allocator_init\<close>, all headers zero (\<open>blank\<close>).
\<close>

definition zero_md :: md where
  "zero_md = \<lparr>size_md = 0, check_free = 0, next = 0, prev = 0\<rparr>"

definition blank :: "addr \<Rightarrow> md" where
  "blank a = zero_md"

definition pool :: "size_t \<Rightarrow> addr \<Rightarrow> (addr \<Rightarrow> md) \<Rightarrow> allocator" where
  "pool u f h = \<lparr>base = 4096, used = u, free_list = f, hdr = h, bytes = ucast\<rparr>"

definition fresh :: allocator where
  "fresh = allocator_init (pool 7 9 blank) 4096"

subsection \<open>Pools reached by well-behaved callers\<close>

text \<open>
  \<open>lay h a bs e\<close>: the headers \<open>bs\<close>, in this order, sit at the consecutive positions
  that start at \<open>a\<close> and end at \<open>e\<close>, each block taking its header and its payload.
  Positions are natural numbers: nothing wraps around.

  \<open>wf st bs fl\<close> is the representation invariant: the pool lies inside the address
  space and not at address 0, \<^verbatim>\<open>used\<close> is within \<^verbatim>\<open>CAP\<close>, the blocks \<open>bs\<close> tile
  \<open>[base, base + used)\<close>, the free list is the well-formed chain \<open>fl\<close> of blocks, and
  a block is on it exactly when its flag is set.
\<close>

fun lay :: "(addr \<Rightarrow> md) \<Rightarrow> nat \<Rightarrow> addr list \<Rightarrow> nat \<Rightarrow> bool" where
  "lay h a [] e \<longleftrightarrow> a = e"
| "lay h a (x # xs) e \<longleftrightarrow> unat x = a \<and> lay h (a + 32 + unat (size_md (h x))) xs e"

definition wf :: "allocator \<Rightarrow> addr list \<Rightarrow> addr list \<Rightarrow> bool" where
  "wf st bs fl \<longleftrightarrow>
     0 < unat (base st) \<and> unat (base st) + unat CAP < 2 ^ 64 \<and> used st \<le> CAP \<and>
     lay (hdr st) (unat (base st)) bs (unat (base st) + unat (used st)) \<and>
     free_chain st fl \<and> set fl \<subseteq> set bs \<and>
     (\<forall>a\<in>set bs. a \<in> set fl \<longleftrightarrow> check_free (hdr st a) \<noteq> 0)"

text \<open>
  A pointer is live when it is the payload pointer of a block of the pool whose flag
  is clear. The reachable pools are those a caller obtains who keeps to the contract
  (frees and reallocates only live pointers or \<^verbatim>\<open>NULL\<close>) and, in addition, never asks
  for a size within \<open>CAP + 32\<close> of \<open>2\<^sup>6\<^sup>4\<close> and never grows the last block beyond
  \<^verbatim>\<open>CAP\<close>: the two things the code does not check.
\<close>

definition live :: "allocator \<Rightarrow> addr \<Rightarrow> bool" where
  "live st p \<longleftrightarrow> p - sizeof_md \<in> set (blocks st) \<and> check_free (hdr st (p - sizeof_md)) = 0"

inductive reachable :: "allocator \<Rightarrow> bool" where
  init: "0 < unat b \<Longrightarrow> unat b + unat CAP < 2 ^ 64 \<Longrightarrow> reachable (allocator_init st b)"
| reset: "reachable st \<Longrightarrow> reachable (allocator_reset st)"
| malloc: "reachable st \<Longrightarrow> unat sz + 32 + unat CAP < 2 ^ 64 \<Longrightarrow>
           mymalloc st sz = Some (st', p) \<Longrightarrow> reachable st'"
| free: "reachable st \<Longrightarrow> p = 0 \<or> live st p \<Longrightarrow> reachable (myfree st p)"
| realloc: "reachable st \<Longrightarrow> p = 0 \<or> live st p \<Longrightarrow> unat n + 32 + unat CAP < 2 ^ 64 \<Longrightarrow>
            (p + size_md (hdr st (p - sizeof_md)) = base st + used st \<longrightarrow>
               unat (used st) - unat (size_md (hdr st (p - sizeof_md))) + unat n \<le> unat CAP) \<Longrightarrow>
            myrealloc st p n = Some (st', q) \<Longrightarrow> reachable st'"

section \<open>Basic facts\<close>

lemmas field_defs = set_size_def set_check_free_def set_next_def set_prev_def

lemmas conc_defs = fresh_def pool_def blank_def zero_md_def allocator_init_def sizeof_md_def CAP_def

subsection \<open>The search loop\<close>

lemma first_fit_null: "first_fit h sz 0 = Some 0"
  by (simp add: first_fit.simps)

lemma first_fit_head: "p \<noteq> 0 \<Longrightarrow> sz \<le> size_md (h p) \<Longrightarrow> first_fit h sz p = Some p"
  by (simp add: first_fit.simps)

text \<open>On a well-formed chain the loop returns, with the first header that fits.\<close>

lemma first_fit_dseg:
  "dseg h pv p fl 0 \<Longrightarrow>
   first_fit h sz p = Some (case find (\<lambda>a. sz \<le> size_md (h a)) fl of None \<Rightarrow> 0 | Some a \<Rightarrow> a)"
proof (induction fl arbitrary: pv p)
  case Nil
  then show ?case by (simp add: first_fit.simps)
next
  case (Cons a fl)
  then show ?case by (subst first_fit.simps) auto
qed

subsection \<open>Chains\<close>

lemma dseg_cong:
  "\<forall>a\<in>set fl. next (h' a) = next (h a) \<and> prev (h' a) = prev (h a) \<Longrightarrow>
   dseg h' pv p fl q = dseg h pv p fl q"
  by (induction fl arbitrary: pv p) auto

lemma dseg_nonzero: "dseg h pv p fl q \<Longrightarrow> 0 \<notin> set fl"
  by (induction fl arbitrary: pv p) auto

lemma dseg_append:
  "dseg h pv p (xs @ ys) q \<longleftrightarrow>
   (\<exists>m. dseg h pv p xs m \<and> dseg h (if xs = [] then pv else last xs) m ys q)"
  by (induction xs arbitrary: pv p) auto

lemma dseg_last_next:
  "dseg h pv p xs q \<Longrightarrow> xs \<noteq> [] \<Longrightarrow> distinct xs \<Longrightarrow>
   dseg (h(last xs := (h (last xs))\<lparr>next := q'\<rparr>)) pv p xs q'"
proof (induction xs arbitrary: pv p)
  case Nil
  then show ?case by simp
next
  case (Cons x xs)
  show ?case
  proof (cases "xs = []")
    case True
    with Cons.prems show ?thesis by simp
  next
    case False
    with Cons.prems have "last xs \<noteq> x" by auto
    with Cons False show ?thesis by simp
  qed
qed

lemma dseg_hd_prev:
  "dseg h pv p ys q \<Longrightarrow> ys \<noteq> [] \<Longrightarrow> distinct ys \<Longrightarrow>
   dseg (h(hd ys := (h (hd ys))\<lparr>prev := pv'\<rparr>)) pv' p ys q"
proof (cases ys)
  case Nil
  then show "ys \<noteq> [] \<Longrightarrow> ?thesis" by simp
next
  case (Cons y zs)
  assume d: "dseg h pv p ys q" and dist: "distinct ys"
  have "dseg (h(y := (h y)\<lparr>prev := pv'\<rparr>)) y (next (h y)) zs q = dseg h y (next (h y)) zs q"
    using dist Cons by (intro dseg_cong) auto
  with d Cons show ?thesis by simp
qed

subsection \<open>Unlinking and pushing\<close>

lemma remove_hdr_cases:
  "hdr (remove_from_free_list st a) =
     (let h = hdr st; lp = prev (h a);
          h1 = (if lp \<noteq> 0 then h(lp := (h lp)\<lparr>next := next (h a)\<rparr>) else h);
          n = next (h1 a)
      in if n \<noteq> 0 then h1(n := (h1 n)\<lparr>prev := prev (h1 a)\<rparr>) else h1)"
  by (simp add: remove_from_free_list_def set_next_def set_prev_def Let_def)

lemma remove_free_list:
  "free_list (remove_from_free_list st a) =
     (if prev (hdr st a) \<noteq> 0 then free_list st else next (hdr st a))"
  by (simp add: remove_from_free_list_def set_next_def set_prev_def Let_def)

lemma remove_frame:
  "base (remove_from_free_list st a) = base st"
  "used (remove_from_free_list st a) = used st"
  "bytes (remove_from_free_list st a) = bytes st"
  "size_md (hdr (remove_from_free_list st a) x) = size_md (hdr st x)"
  "check_free (hdr (remove_from_free_list st a) x) = check_free (hdr st x)"
  by (simp_all add: remove_from_free_list_def set_next_def set_prev_def Let_def)

lemma remove_free_chain:
  assumes fc: "free_chain st fl" and a: "a \<in> set fl"
  shows "free_chain (remove_from_free_list st a) (remove1 a fl)"
proof -
  define h where "h = hdr st"
  define n where "n = next (h a)"
  from a obtain xs ys where fl: "fl = xs @ a # ys" and axs: "a \<notin> set xs"
    by (auto dest: split_list_first)
  from fc have dist: "distinct fl" and seg: "dseg h 0 (free_list st) fl 0"
    by (simp_all add: free_chain_def h_def)
  from dist fl have ays: "a \<notin> set ys" and dxs: "distinct xs" and dys: "distinct ys"
    and disj: "set xs \<inter> set ys = {}" by auto
  have rm: "remove1 a fl = xs @ ys" using fl axs by (simp add: remove1_append)
  define lp where "lp = (if xs = [] then 0 else last xs)"
  from seg fl have sxs: "dseg h 0 (free_list st) xs a" and a0: "a \<noteq> 0"
    and pa: "prev (h a) = lp" and sys: "dseg h a n ys 0"
    by (auto simp: dseg_append lp_def n_def)
  from seg have nz: "0 \<notin> set fl" by (rule dseg_nonzero)
  have nys: "n = (if ys = [] then 0 else hd ys)" using sys by (cases ys) auto
  have lpxs: "lp \<in> set xs \<and> lp \<noteq> 0" if "xs \<noteq> []"
  proof -
    from that have l: "last xs \<in> set xs" by (rule last_in_set)
    moreover from nz fl have "0 \<notin> set xs" by simp
    ultimately have "last xs \<noteq> 0" by metis
    with l that show ?thesis by (simp add: lp_def)
  qed
  have lpa: "lp \<noteq> a" using lpxs a0 axs by (cases "xs = []") (auto simp: lp_def)
  define h1 where "h1 = (if lp \<noteq> 0 then h(lp := (h lp)\<lparr>next := n\<rparr>) else h)"
  define h2 where "h2 = (if n \<noteq> 0 then h1(n := (h1 n)\<lparr>prev := lp\<rparr>) else h1)"
  have h1a: "next (h1 a) = n" "prev (h1 a) = lp" using lpa pa by (auto simp: h1_def n_def)
  have "hdr (remove_from_free_list st a) =
          (if next (h1 a) \<noteq> 0 then h1(next (h1 a) := (h1 (next (h1 a)))\<lparr>prev := prev (h1 a)\<rparr>) else h1)"
    unfolding remove_hdr_cases Let_def h1_def h_def n_def pa[unfolded h_def] ..
  then have hdr': "hdr (remove_from_free_list st a) = h2"
    unfolding h1a h2_def .
  have fl': "free_list (remove_from_free_list st a) = (if xs = [] then n else free_list st)"
    using pa lpxs by (auto simp: remove_free_list h_def[symmetric] lp_def n_def)
  have nxs: "n \<notin> set xs \<or> n = 0" using nys disj by (cases ys) auto
  have part1: "dseg h2 0 (if xs = [] then n else free_list st) xs n"
  proof (cases "xs = []")
    case True then show ?thesis by simp
  next
    case False
    then have "lp = last xs" "lp \<noteq> 0" using lpxs by (auto simp: lp_def)
    then have "dseg h1 0 (free_list st) xs n"
      using dseg_last_next[OF sxs False dxs, of n] by (simp add: h1_def)
    moreover have "dseg h2 0 (free_list st) xs n = dseg h1 0 (free_list st) xs n"
      using nxs by (intro dseg_cong) (auto simp: h2_def)
    ultimately show ?thesis using False by simp
  qed
  have part2: "dseg h2 lp n ys 0"
  proof (cases "ys = []")
    case True then show ?thesis using nys by simp
  next
    case False
    have "lp = 0 \<or> lp \<notin> set ys"
    proof (cases "xs = []")
      case True then show ?thesis by (simp add: lp_def)
    next
      case False from lpxs[OF this] disj show ?thesis by blast
    qed
    then have "dseg h1 a n ys 0 = dseg h a n ys 0"
      by (intro dseg_cong) (auto simp: h1_def)
    with sys have "dseg h1 a n ys 0" by simp
    from dseg_hd_prev[OF this False dys, of lp] nys False nz fl
    show ?thesis by (cases ys) (auto simp: h2_def)
  qed
  have "dseg h2 0 (if xs = [] then n else free_list st) (xs @ ys) 0"
    unfolding dseg_append using part1 part2 by (auto simp: lp_def)
  moreover have "distinct (xs @ ys)" using dist fl by auto
  ultimately show ?thesis by (simp add: free_chain_def hdr' fl' rm)
qed

lemma insert_free_chain:
  assumes fc: "free_chain st fl" and b: "b \<notin> set fl" "b \<noteq> 0"
  shows "free_chain (insert_into_free_list st b) (b # fl)"
proof (cases fl)
  case Nil
  with fc b show ?thesis
    by (simp add: free_chain_def insert_into_free_list_def set_check_free_def set_next_def set_prev_def)
next
  case (Cons y zs)
  with fc have y: "free_list st = y" "y \<noteq> 0" and seg: "dseg (hdr st) 0 y fl 0" and dist: "distinct fl"
    by (auto simp: free_chain_def)
  define h1 where "h1 = (hdr st)(b := (hdr st b)\<lparr>check_free := 1, next := y, prev := 0\<rparr>)"
  have "dseg h1 0 y fl 0 = dseg (hdr st) 0 y fl 0"
    using b by (intro dseg_cong) (auto simp: h1_def)
  with seg have "dseg h1 0 y fl 0" by simp
  from dseg_hd_prev[OF this _ dist, of b] Cons
  have "dseg (h1(y := (h1 y)\<lparr>prev := b\<rparr>)) b y fl 0" by simp
  moreover have yb: "y \<noteq> b" using b Cons by auto
  moreover have "hdr (insert_into_free_list st b) = h1(y := (h1 y)\<lparr>prev := b\<rparr>)"
    using y yb by (simp add: insert_into_free_list_def set_check_free_def set_next_def set_prev_def h1_def)
  moreover have "free_list (insert_into_free_list st b) = b"
    by (simp add: insert_into_free_list_def Let_def)
  ultimately show ?thesis using b dist by (simp add: free_chain_def h1_def)
qed

subsection \<open>What the field assignments leave alone\<close>

lemma set_check_free_frame:
  "base (set_check_free a v st) = base st" "used (set_check_free a v st) = used st"
  "free_list (set_check_free a v st) = free_list st" "bytes (set_check_free a v st) = bytes st"
  "size_md (hdr (set_check_free a v st) x) = size_md (hdr st x)"
  "next (hdr (set_check_free a v st) x) = next (hdr st x)"
  "prev (hdr (set_check_free a v st) x) = prev (hdr st x)"
  "check_free (hdr (set_check_free a v st) x) = (if x = a then v else check_free (hdr st x))"
  by (simp_all add: set_check_free_def)

lemma set_size_frame:
  "base (set_size a v st) = base st" "used (set_size a v st) = used st"
  "free_list (set_size a v st) = free_list st" "bytes (set_size a v st) = bytes st"
  "check_free (hdr (set_size a v st) x) = check_free (hdr st x)"
  "next (hdr (set_size a v st) x) = next (hdr st x)"
  "prev (hdr (set_size a v st) x) = prev (hdr st x)"
  "size_md (hdr (set_size a v st) x) = (if x = a then v else size_md (hdr st x))"
  by (simp_all add: set_size_def)

lemma free_chain_set_check_free [simp]:
  "free_chain (set_check_free a v st) fl = free_chain st fl"
  unfolding free_chain_def set_check_free_frame
  by (rule arg_cong2[where f="(\<and>)"], rule dseg_cong) (simp_all add: set_check_free_frame)

lemma free_chain_set_size [simp]:
  "free_chain (set_size a v st) fl = free_chain st fl"
  unfolding free_chain_def set_size_frame
  by (rule arg_cong2[where f="(\<and>)"], rule dseg_cong) (simp_all add: set_size_frame)

lemma insert_frame:
  "base (insert_into_free_list st b) = base st"
  "used (insert_into_free_list st b) = used st"
  "bytes (insert_into_free_list st b) = bytes st"
  "free_list (insert_into_free_list st b) = b"
  "size_md (hdr (insert_into_free_list st b) x) = size_md (hdr st x)"
  "check_free (hdr (insert_into_free_list st b) x) = (if x = b then 1 else check_free (hdr st x))"
  by (simp_all add: insert_into_free_list_def field_defs Let_def)

subsection \<open>Allocation\<close>

lemma mymalloc_empty:
  "free_list st = 0 \<Longrightarrow>
   mymalloc st sz =
     (if CAP < used st + (sizeof_md + sz) then Some (st, 0)
      else Some (set_check_free (base st + used st) 0 (set_size (base st + used st) sz st)
                   \<lparr>used := used st + (sizeof_md + sz)\<rparr>,
                 base st + used st + sizeof_md))"
  by (simp add: mymalloc_def first_fit_null field_defs Let_def)

lemma mymalloc_head:
  "free_list st \<noteq> 0 \<Longrightarrow>
   mymalloc st 0 = Some (set_check_free (free_list st) 0 (remove_from_free_list st (free_list st)),
                         free_list st + sizeof_md)"
  by (simp add: mymalloc_def first_fit_head)

text \<open>With a well-formed free list \<^verbatim>\<open>mymalloc\<close> returns, and this is what it returns.\<close>

lemma mymalloc_chain:
  assumes "free_chain st fl"
  shows "mymalloc st sz =
     (case find (\<lambda>a. sz \<le> size_md (hdr st a)) fl of
        Some c \<Rightarrow> Some (set_check_free c 0 (remove_from_free_list st c), c + sizeof_md)
      | None \<Rightarrow>
          if CAP < used st + (sizeof_md + sz) then Some (st, 0)
          else Some (set_check_free (base st + used st) 0 (set_size (base st + used st) sz st)
                       \<lparr>used := used st + (sizeof_md + sz)\<rparr>,
                     base st + used st + sizeof_md))"
proof -
  from assms have seg: "dseg (hdr st) 0 (free_list st) fl 0" by (simp add: free_chain_def)
  note ff = first_fit_dseg[OF seg, of sz]
  show ?thesis
  proof (cases "find (\<lambda>a. sz \<le> size_md (hdr st a)) fl")
    case None
    with ff show ?thesis by (simp add: mymalloc_def field_defs Let_def)
  next
    case (Some c)
    then have "c \<in> set fl" by (auto simp: find_Some_iff)
    with dseg_nonzero[OF seg] have "c \<noteq> 0" by auto
    with ff Some show ?thesis by (simp add: mymalloc_def)
  qed
qed

lemma mymalloc_returns: "free_chain st fl \<Longrightarrow> \<exists>r. mymalloc st sz = Some r"
  by (cases "find (\<lambda>a. sz \<le> size_md (hdr st a)) fl") (simp_all add: mymalloc_chain)

lemma find_first:
  "\<forall>a\<in>set xs. \<not> P a \<Longrightarrow> P c \<Longrightarrow> find P (xs @ c # ys) = Some c"
  by (induction xs) auto

lemma find_none: "\<forall>a\<in>set xs. \<not> P a \<Longrightarrow> find P xs = None"
  by (induction xs) auto

lemma mymalloc_bytes: "mymalloc st sz = Some (st1, q) \<Longrightarrow> bytes st1 = bytes st"
  by (auto simp: mymalloc_def Let_def set_check_free_frame set_size_frame remove_frame
      split: option.splits if_splits)

lemma mymalloc_null:
  assumes fc: "free_chain st fl"
    and nn: "base st + used st + sizeof_md \<noteq> 0" "\<forall>a\<in>set fl. a + sizeof_md \<noteq> 0"
    and m: "mymalloc st sz = Some (st1, 0)"
  shows "st1 = st"
proof (cases "find (\<lambda>a. sz \<le> size_md (hdr st a)) fl")
  case None
  with m nn show ?thesis by (auto simp: mymalloc_chain[OF fc] split: if_splits)
next
  case (Some c)
  then have "c \<in> set fl" by (auto simp: find_Some_iff)
  with Some m nn show ?thesis by (auto simp: mymalloc_chain[OF fc])
qed

text \<open>
  The bump path where no sum wraps around: when no free block fits and
  \<open>used + sizeof(md) + size\<close> stays below \<open>2\<^sup>6\<^sup>4\<close>, the request fails exactly when that sum
  exceeds \<^verbatim>\<open>CAP\<close>, and is served at \<open>base + used\<close> otherwise.
\<close>

lemma mymalloc_bump_in_range:
  assumes fc: "free_chain st fl"
    and small: "\<forall>a\<in>set fl. size_md (hdr st a) < sz"
    and nowrap: "unat (used st) + unat sizeof_md + unat sz < 2 ^ 64"
  shows "mymalloc st sz =
     (if unat CAP < unat (used st) + unat sizeof_md + unat sz then Some (st, 0)
      else Some (set_check_free (base st + used st) 0 (set_size (base st + used st) sz st)
                   \<lparr>used := used st + (sizeof_md + sz)\<rparr>,
                 base st + used st + sizeof_md))"
proof -
  from small have "find (\<lambda>a. sz \<le> size_md (hdr st a)) fl = None"
    by (intro find_none) (simp add: not_le)
  moreover from nowrap have "unat (sizeof_md + sz) = unat sizeof_md + unat sz"
    by (intro unat_add_lem[THEN iffD1]) simp
  with nowrap have "unat (used st + (sizeof_md + sz)) = unat (used st) + unat sizeof_md + unat sz"
    by (simp add: unat_add_lem[THEN iffD1])
  ultimately show ?thesis
    by (simp add: mymalloc_chain[OF fc] word_less_nat_alt)
qed

subsection \<open>Deallocation\<close>

lemma free_chain_head_prev: "free_chain st (b # fl) \<Longrightarrow> prev (hdr st b) = 0"
  by (simp add: free_chain_def)

text \<open>The block at the head of a well-formed free list has no \<^verbatim>\<open>prev\<close>: the second
  step of \<^verbatim>\<open>merge_blocks\<close> does nothing for it.\<close>

lemma merge_prev_head: "free_chain st (b # fl) \<Longrightarrow> merge_prev st b = st"
  by (simp add: merge_prev_def free_chain_head_prev)

lemma merge_next_cases:
  "merge_next st b =
     (if b + sizeof_md + size_md (hdr st b) < base st + used st \<and>
         check_free (hdr st (b + sizeof_md + size_md (hdr st b))) \<noteq> 0
      then set_size b (size_md (hdr st b) + (sizeof_md + size_md (hdr st (b + sizeof_md + size_md (hdr st b)))))
             (remove_from_free_list st (b + sizeof_md + size_md (hdr st b)))
      else st)"
  by (simp add: merge_next_def Let_def remove_frame)

lemma myfree_chain:
  assumes fc: "free_chain st fl" and p: "p \<noteq> 0" and b: "b = p - sizeof_md" "b \<noteq> 0" "b \<notin> set fl"
    and nb: "nb = b + sizeof_md + size_md (hdr st b)" "nb \<noteq> b"
    and mem: "nb < base st + used st \<and> check_free (hdr st nb) \<noteq> 0 \<longrightarrow> nb \<in> set fl"
  shows "myfree st p =
           (if nb < base st + used st \<and> check_free (hdr st nb) \<noteq> 0
            then set_size b (size_md (hdr st b) + (sizeof_md + size_md (hdr st nb)))
                   (remove_from_free_list (insert_into_free_list st b) nb)
            else insert_into_free_list st b)"
    and "free_chain (myfree st p)
           (if nb < base st + used st \<and> check_free (hdr st nb) \<noteq> 0 then b # remove1 nb fl else b # fl)"
proof -
  let ?st1 = "insert_into_free_list st b"
  let ?c = "nb < base st + used st \<and> check_free (hdr st nb) \<noteq> 0"
  have fc1: "free_chain ?st1 (b # fl)" using fc b by (intro insert_free_chain)
  have nb1: "b + sizeof_md + size_md (hdr ?st1 b) = nb" by (simp add: insert_frame nb)
  have c1: "(nb < base ?st1 + used ?st1 \<and> check_free (hdr ?st1 nb) \<noteq> 0) = ?c"
    using nb by (simp add: insert_frame)
  let ?st2 = "set_size b (size_md (hdr st b) + (sizeof_md + size_md (hdr st nb)))
                   (remove_from_free_list ?st1 nb)"
  have mn: "merge_next ?st1 b = (if ?c then ?st2 else ?st1)"
    unfolding merge_next_cases nb1 c1 by (simp add: insert_frame)
  have fc2: "free_chain ?st2 (b # remove1 nb fl)" if ?c
  proof -
    from that mem have "nb \<in> set (b # fl)" by simp
    from remove_free_chain[OF fc1 this] nb show ?thesis by simp
  qed
  have "merge_prev (merge_next ?st1 b) b = merge_next ?st1 b"
  proof (cases ?c)
    case True
    with fc2 mn show ?thesis by (simp add: merge_prev_head)
  next
    case False
    with fc1 mn show ?thesis by (simp add: merge_prev_head)
  qed
  with p b mn show eq: "myfree st p = (if ?c then ?st2 else ?st1)"
    by (simp add: myfree_def merge_blocks_def)
  show "free_chain (myfree st p) (if ?c then b # remove1 nb fl else b # fl)"
  proof (cases ?c)
    case True
    from fc2[OF True] True show ?thesis unfolding eq by simp
  next
    case False
    then have "(if ?c then b # remove1 nb fl else b # fl) = b # fl"
      and "(if ?c then ?st2 else ?st1) = ?st1" by auto
    with fc1 show ?thesis unfolding eq by simp
  qed
qed





subsection \<open>Walking the blocks of small pools\<close>

lemma blocks_none: "used st = 0 \<Longrightarrow> blocks st = []"
  by (simp add: blocks_def)

lemma blocks_short: "unat (used st) \<noteq> 0 \<Longrightarrow> unat (used st) \<le> 32 \<Longrightarrow> blocks st = [base st]"
  by (simp add: blocks_def)

subsection \<open>The representation invariant\<close>

lemma unat_add64: "unat x + unat y < 2 ^ 64 \<Longrightarrow> unat (x + y :: 64 word) = unat x + unat y"
  by (simp add: unat_add_lem[THEN iffD1])

lemma resized_used:
  fixes u old n :: size_t
  assumes "old \<le> u" and "unat u - unat old + unat n < 2 ^ 64"
  shows "unat (if old < n then u + (n - old) else u - (old - n)) = unat u - unat old + unat n"
proof (cases "old < n")
  case True
  then have "old \<le> n" by simp
  with True have d: "unat (n - old) = unat n - unat old" "unat old < unat n"
    by (simp_all add: unat_sub word_less_nat_alt)
  from assms(1) have "unat old \<le> unat u" by (simp add: word_le_nat_alt)
  with d assms(2) have "unat u + unat (n - old) < 2 ^ 64" by simp
  then have "unat (u + (n - old)) = unat u + unat (n - old)" by (rule unat_add64)
  with True d \<open>unat old \<le> unat u\<close> show ?thesis by simp
next
  case False
  then have "n \<le> old" by simp
  then have d: "unat (old - n) = unat old - unat n" "unat n \<le> unat old"
    by (simp_all add: unat_sub word_le_nat_alt)
  from assms(1) have ou: "unat old \<le> unat u" by (simp add: word_le_nat_alt)
  with d have "old - n \<le> u" by (simp add: word_le_nat_alt)
  then have "unat (u - (old - n)) = unat u - (unat old - unat n)"
    using d by (simp add: unat_sub)
  with False d ou show ?thesis by simp
qed

lemma unat_of_nat64: "n < 2 ^ 64 \<Longrightarrow> unat (of_nat n :: 64 word) = n"
  by (simp add: unat_of_nat)

lemma lay_le: "lay h a xs e \<Longrightarrow> a \<le> e"
proof (induction xs arbitrary: a)
  case Nil then show ?case by simp
next
  case (Cons x xs)
  then have "lay h (a + 32 + unat (size_md (h x))) xs e" by simp
  from Cons.IH[OF this] show ?case by simp
qed

lemma lay_bound: "lay h a xs e \<Longrightarrow> x \<in> set xs \<Longrightarrow> a \<le> unat x \<and> unat x + 32 + unat (size_md (h x)) \<le> e"
proof (induction xs arbitrary: a)
  case Nil then show ?case by simp
next
  case (Cons y ys)
  show ?case
  proof (cases "x = y")
    case True with Cons.prems lay_le[of h _ ys e] show ?thesis by auto
  next
    case False
    with Cons.prems have "lay h (a + 32 + unat (size_md (h y))) ys e" "x \<in> set ys" by auto
    from Cons.IH[OF this] show ?thesis by simp
  qed
qed

lemma lay_cong:
  "\<forall>x\<in>set xs. size_md (h' x) = size_md (h x) \<Longrightarrow> lay h' a xs e = lay h a xs e"
  by (induction xs arbitrary: a) auto

lemma lay_append:
  "lay h a (xs @ ys) e \<longleftrightarrow> (\<exists>m. lay h a xs m \<and> lay h m ys e)"
  by (induction xs arbitrary: a) auto

lemma lay_distinct: "lay h a xs e \<Longrightarrow> distinct xs"
proof (induction xs arbitrary: a)
  case Nil then show ?case by simp
next
  case (Cons y ys)
  then have l: "lay h (a + 32 + unat (size_md (h y))) ys e" and y: "unat y = a" by auto
  have "y \<notin> set ys"
  proof
    assume "y \<in> set ys"
    from lay_bound[OF l this] y show False by simp
  qed
  with Cons.IH[OF l] show ?case by simp
qed

lemma tiled_lay:
  "lay h (unat b + off) xs (unat b + u) \<Longrightarrow> unat b + u < 2 ^ 64 \<Longrightarrow> tiled h b u off"
proof (induction xs arbitrary: off)
  case Nil
  then show ?case by simp
next
  case (Cons x xs)
  then have x: "unat x = unat b + off"
    and l: "lay h (unat b + (off + 32 + unat (size_md (h x)))) xs (unat b + u)"
    by (auto simp: add.assoc)
  from lay_le[OF l] have le: "off + 32 + unat (size_md (h x)) \<le> u" by simp
  from le Cons.prems(2) have "unat b + off < 2 ^ 64" by simp
  then have "unat (b + of_nat off) = unat b + off"
    by (simp add: unat_add64 unat_of_nat64)
  with x have xb: "b + of_nat off = x" by (simp add: word_unat_eq_iff)
  from Cons.IH[OF l Cons.prems(2)] have "tiled h b u (off + 32 + unat (size_md (h x)))" .
  with le xb show ?case by (subst tiled.simps) auto
qed


lemma block_offs_lay:
  "lay h (unat b + off) xs (unat b + u) \<Longrightarrow> unat b + u < 2 ^ 64 \<Longrightarrow>
   map (\<lambda>off. b + of_nat off) (block_offs h b u off) = xs"
proof (induction xs arbitrary: off)
  case Nil
  then show ?case by simp
next
  case (Cons x xs)
  then have x: "unat x = unat b + off"
    and l: "lay h (unat b + (off + 32 + unat (size_md (h x)))) xs (unat b + u)"
    by (auto simp: add.assoc)
  from lay_le[OF l] have le: "off + 32 + unat (size_md (h x)) \<le> u" by simp
  from le Cons.prems(2) have "unat b + off < 2 ^ 64" by simp
  then have "unat (b + of_nat off) = unat b + off"
    by (simp add: unat_add64 unat_of_nat64)
  with x have xb: "b + of_nat off = x" by (simp add: word_unat_eq_iff)
  from Cons.IH[OF l Cons.prems(2)] le xb show ?case by (subst block_offs.simps) auto
qed

lemma linked_dseg_in: "dseg h pv p fl 0 \<Longrightarrow> a \<in> set fl \<Longrightarrow> linked h p a"
proof (induction fl arbitrary: pv p)
  case Nil
  then show ?case by simp
next
  case (Cons x xs)
  then show ?case by (cases "a = x") (auto intro: linked.intros)
qed

lemma linked_dseg_mem: "linked h p a \<Longrightarrow> dseg h pv p fl 0 \<Longrightarrow> a \<in> set fl"
proof (induction arbitrary: pv fl rule: linked.induct)
  case (here p)
  then show ?case by (cases fl) auto
next
  case (later p a)
  then show ?case by (cases fl) auto
qed

lemma linked_free_chain: "free_chain st fl \<Longrightarrow> linked (hdr st) (free_list st) a \<longleftrightarrow> a \<in> set fl"
  unfolding free_chain_def by (blast intro: linked_dseg_in linked_dseg_mem)

lemma wf_nowrap: "wf st bs fl \<Longrightarrow> unat (base st) + unat (used st) < 2 ^ 64"
  by (simp add: wf_def word_le_nat_alt)

lemma wf_contiguous: "wf st bs fl \<Longrightarrow> contiguous st"
  unfolding contiguous_def using tiled_lay[of "hdr st" "base st" 0 bs "unat (used st)"] wf_nowrap[of st bs fl]
  by (simp add: wf_def)

lemma wf_blocks: "wf st bs fl \<Longrightarrow> blocks st = bs"
  unfolding blocks_def using block_offs_lay[of "hdr st" "base st" 0 bs "unat (used st)"] wf_nowrap[of st bs fl]
  by (simp add: wf_def)

lemma wf_membership:
  assumes "wf st bs fl"
  shows "membership st"
proof -
  from assms have "free_chain st fl"
    and "\<forall>a\<in>set bs. a \<in> set fl \<longleftrightarrow> check_free (hdr st a) \<noteq> 0"
    by (simp_all add: wf_def)
  then show ?thesis
    by (simp add: membership_def wf_blocks[OF assms] linked_free_chain)
qed

lemma wf_init:
  "0 < unat b \<Longrightarrow> unat b + unat CAP < 2 ^ 64 \<Longrightarrow> wf (allocator_init st b) [] []"
  by (simp add: wf_def allocator_init_def free_chain_def)

lemma wf_reset: "wf st bs fl \<Longrightarrow> wf (allocator_reset st) [] []"
  by (simp add: wf_def allocator_reset_def free_chain_def)

lemma free_chain_used [simp]: "free_chain (st\<lparr>used := u\<rparr>) fl = free_chain st fl"
  by (simp add: free_chain_def)

lemma free_chain_bytes [simp]: "free_chain (st\<lparr>bytes := f\<rparr>) fl = free_chain st fl"
  by (simp add: free_chain_def)

lemma wf_block_pos:
  assumes "wf st bs fl" and "x \<in> set bs"
  shows "unat (base st) \<le> unat x" and "unat x + 32 + unat (size_md (hdr st x)) \<le> unat (base st) + unat (used st)"
    and "x \<noteq> 0" and "unat (x + sizeof_md) = unat x + 32" and "x + sizeof_md \<noteq> 0"
    and "x + sizeof_md - sizeof_md = x"
proof -
  from assms have l: "lay (hdr st) (unat (base st)) bs (unat (base st) + unat (used st))"
    and b: "0 < unat (base st)" by (simp_all add: wf_def)
  from lay_bound[OF l assms(2)]
  show 1: "unat (base st) \<le> unat x"
    and 2: "unat x + 32 + unat (size_md (hdr st x)) \<le> unat (base st) + unat (used st)" by simp_all
  from 1 b show "x \<noteq> 0" by auto
  from 2 wf_nowrap[OF assms(1)] show 3: "unat (x + sizeof_md) = unat x + 32"
    by (simp add: sizeof_md_def unat_add64)
  then show "x + sizeof_md \<noteq> 0" by (auto simp: word_unat_eq_iff)
  show "x + sizeof_md - sizeof_md = x" by simp
qed

lemma wf_mymalloc:
  assumes wf: "wf st bs fl" and sz: "unat sz + 32 + unat CAP < 2 ^ 64"
  shows "\<exists>st' p bs' fl'. mymalloc st sz = Some (st', p) \<and> wf st' bs' fl' \<and>
           (if p = 0 then st' = st
            else p - sizeof_md \<in> set bs' \<and> check_free (hdr st' (p - sizeof_md)) = 0 \<and>
                 sz \<le> size_md (hdr st' (p - sizeof_md)) \<and>
                 (\<forall>x\<in>set bs. x \<in> set bs' \<and> (check_free (hdr st x) = 0 \<longrightarrow> check_free (hdr st' x) = 0 \<and> x \<noteq> p - sizeof_md)))"
proof -
  from wf have fc: "free_chain st fl" and sub: "set fl \<subseteq> set bs"
    and mem: "\<forall>a\<in>set bs. a \<in> set fl \<longleftrightarrow> check_free (hdr st a) \<noteq> 0"
    and l: "lay (hdr st) (unat (base st)) bs (unat (base st) + unat (used st))"
    and u: "used st \<le> CAP" and b: "0 < unat (base st)" "unat (base st) + unat CAP < 2 ^ 64"
    by (simp_all add: wf_def)
  show ?thesis
  proof (cases "find (\<lambda>a. sz \<le> size_md (hdr st a)) fl")
    case (Some c)
    then have c: "c \<in> set fl" "sz \<le> size_md (hdr st c)" by (auto simp: find_Some_iff)
    let ?st' = "set_check_free c 0 (remove_from_free_list st c)"
    have m: "mymalloc st sz = Some (?st', c + sizeof_md)"
      using Some by (simp add: mymalloc_chain[OF fc])
    from c sub have cb: "c \<in> set bs" by auto
    from fc have dist: "distinct fl" by (simp add: free_chain_def)
    have "lay (hdr ?st') (unat (base st)) bs (unat (base st) + unat (used st))
          = lay (hdr st) (unat (base st)) bs (unat (base st) + unat (used st))"
      by (intro lay_cong) (simp add: set_check_free_frame remove_frame)
    with l have l': "lay (hdr ?st') (unat (base ?st')) bs (unat (base ?st') + unat (used ?st'))"
      by (simp add: set_check_free_frame remove_frame)
    have fc': "free_chain ?st' (remove1 c fl)" using remove_free_chain[OF fc c(1)] by simp
    have "wf ?st' bs (remove1 c fl)"
      unfolding wf_def using l' fc' b u sub mem dist
      by (auto simp: set_check_free_frame remove_frame)
    moreover have "c + sizeof_md \<noteq> 0" "c + sizeof_md - sizeof_md = c"
      using wf_block_pos[OF wf cb] by simp_all
    moreover have "check_free (hdr ?st' c) = 0" "sz \<le> size_md (hdr ?st' c)"
      using c by (simp_all add: set_check_free_frame remove_frame)
    moreover have "\<forall>x\<in>set bs. check_free (hdr st x) = 0 \<longrightarrow> check_free (hdr ?st' x) = 0 \<and> x \<noteq> c"
      using mem c by (auto simp: set_check_free_frame remove_frame)
    ultimately show ?thesis using m cb by auto
  next
    case None
    have nowrap: "unat (used st + (sizeof_md + sz)) = unat (used st) + 32 + unat sz"
    proof -
      have "unat (sizeof_md + sz) = 32 + unat sz" using sz by (simp add: unat_add64 sizeof_md_def)
      moreover have "unat (used st) \<le> unat CAP" using u by (simp add: word_le_nat_alt)
      ultimately show ?thesis using sz by (simp add: unat_add64)
    qed
    show ?thesis
    proof (cases "CAP < used st + (sizeof_md + sz)")
      case True
      with None have "mymalloc st sz = Some (st, 0)" by (simp add: mymalloc_chain[OF fc])
      with wf show ?thesis by auto
    next
      case False
      define nw where "nw = base st + used st"
      let ?st' = "set_check_free nw 0 (set_size nw sz st)\<lparr>used := used st + (sizeof_md + sz)\<rparr>"
      have m: "mymalloc st sz = Some (?st', nw + sizeof_md)"
        using None False by (simp add: mymalloc_chain[OF fc] nw_def)
      have unw: "unat nw = unat (base st) + unat (used st)"
        using wf_nowrap[OF wf] by (simp add: nw_def unat_add64)
      have nwbs: "nw \<notin> set bs"
      proof
        assume "nw \<in> set bs"
        from lay_bound[OF l this] unw show False by simp
      qed
      from False nowrap have cap: "unat (used st) + 32 + unat sz \<le> unat CAP"
        by (simp add: word_less_nat_alt)
      have "lay (hdr ?st') (unat (base st)) bs (unat (base st) + unat (used st))
            = lay (hdr st) (unat (base st)) bs (unat (base st) + unat (used st))"
        using nwbs by (intro lay_cong) (auto simp: set_check_free_frame set_size_frame)
      with l have "lay (hdr ?st') (unat (base st)) (bs @ [nw]) (unat (base st) + unat (used st) + 32 + unat sz)"
        by (simp add: lay_append unw set_check_free_frame set_size_frame)
      then have l': "lay (hdr ?st') (unat (base ?st')) (bs @ [nw]) (unat (base ?st') + unat (used ?st'))"
        by (simp add: set_check_free_frame set_size_frame nowrap add.assoc)
      have fc': "free_chain ?st' fl" using fc by simp
      have "used ?st' \<le> CAP" using cap nowrap by (simp add: word_le_nat_alt)
      with l' fc' b sub mem nwbs have "wf ?st' (bs @ [nw]) fl"
        unfolding wf_def by (auto simp: set_check_free_frame set_size_frame)
      moreover have "unat (nw + sizeof_md) = unat nw + 32"
        using unw cap b by (simp add: unat_add64 sizeof_md_def)
      then have "nw + sizeof_md \<noteq> 0" by (auto simp: word_unat_eq_iff)
      moreover have "nw + sizeof_md - sizeof_md = nw" by simp
      moreover have "check_free (hdr ?st' nw) = 0" "sz \<le> size_md (hdr ?st' nw)"
        by (simp_all add: set_check_free_frame set_size_frame)
      moreover have "\<forall>x\<in>set bs. check_free (hdr st x) = 0 \<longrightarrow> check_free (hdr ?st' x) = 0 \<and> x \<noteq> nw"
        using nwbs by (auto simp: set_check_free_frame set_size_frame)
      ultimately show ?thesis using m by auto
    qed
  qed
qed

lemma wf_myfree:
  assumes wf: "wf st bs fl" and bb: "b \<in> set bs" and live: "check_free (hdr st b) = 0"
  shows "\<exists>bs' fl'. wf (myfree st (b + sizeof_md)) bs' fl' \<and>
           (\<forall>x\<in>set bs. x \<noteq> b \<and> check_free (hdr st x) = 0 \<longrightarrow>
               x \<in> set bs' \<and> check_free (hdr (myfree st (b + sizeof_md)) x) = 0)"
proof -
  from wf have fc: "free_chain st fl" and sub: "set fl \<subseteq> set bs"
    and mem: "\<forall>a\<in>set bs. a \<in> set fl \<longleftrightarrow> check_free (hdr st a) \<noteq> 0"
    and l: "lay (hdr st) (unat (base st)) bs (unat (base st) + unat (used st))"
    and u: "used st \<le> CAP" and bpos: "0 < unat (base st)" "unat (base st) + unat CAP < 2 ^ 64"
    by (simp_all add: wf_def)
  let ?e = "unat (base st) + unat (used st)"
  note nw = wf_nowrap[OF wf]
  note pos = wf_block_pos[OF wf bb]
  from fc have dfl: "distinct fl" by (simp add: free_chain_def)
  from lay_distinct[OF l] have dbs: "distinct bs" .
  from mem bb live have bfl: "b \<notin> set fl" by auto
  define nb where "nb = b + sizeof_md + size_md (hdr st b)"
  define a' where "a' = unat b + 32 + unat (size_md (hdr st b))"
  from pos(2) have a'e: "a' \<le> ?e" by (simp add: a'_def)
  have unb: "unat nb = a'"
    using a'e nw pos(4) by (simp add: nb_def a'_def unat_add64)
  then have nbb: "nb \<noteq> b" by (auto simp: a'_def)
  have ue: "unat (base st + used st) = ?e" using nw by (simp add: unat_add64)
  from bb obtain xs ys where bs: "bs = xs @ b # ys" by (auto dest: split_list)
  with l have lxs: "lay (hdr st) (unat (base st)) xs (unat b)" and lys: "lay (hdr st) a' ys ?e"
    by (auto simp: lay_append a'_def)
  from dbs bs have bxs: "b \<notin> set xs" and bys: "b \<notin> set ys" by auto
  let ?c = "nb < base st + used st \<and> check_free (hdr st nb) \<noteq> 0"
  have ys_nb: "\<exists>zs. ys = nb # zs" if "nb < base st + used st"
  proof (cases ys)
    case Nil
    with lys have "a' = ?e" by simp
    with that unb ue show ?thesis by (simp add: word_less_nat_alt)
  next
    case (Cons y zs)
    with lys have "unat y = a'" by simp
    with unb have "y = nb" by (simp add: word_unat_eq_iff)
    with Cons show ?thesis by simp
  qed
  have memnb: "?c \<longrightarrow> nb \<in> set fl"
  proof
    assume c: ?c
    with ys_nb obtain zs where "ys = nb # zs" by blast
    with bs have "nb \<in> set bs" by simp
    with mem c show "nb \<in> set fl" by auto
  qed
  let ?p = "b + sizeof_md"
  have bp: "b = ?p - sizeof_md" by simp
  note mf = myfree_chain[OF fc pos(5) bp pos(3) bfl nb_def nbb memnb]
  show ?thesis
  proof (cases ?c)
    case False
    then have eq: "myfree st ?p = insert_into_free_list st b" and fc': "free_chain (myfree st ?p) (b # fl)"
      using mf by auto
    have "lay (hdr (myfree st ?p)) (unat (base st)) bs ?e = lay (hdr st) (unat (base st)) bs ?e"
      unfolding eq by (intro lay_cong) (simp add: insert_frame)
    with l fc' bpos u sub mem bb have "wf (myfree st ?p) bs (b # fl)"
      unfolding wf_def by (auto simp: eq insert_frame)
    moreover have "\<forall>x\<in>set bs. x \<noteq> b \<and> check_free (hdr st x) = 0 \<longrightarrow>
               x \<in> set bs \<and> check_free (hdr (myfree st ?p) x) = 0"
      by (simp add: eq insert_frame)
    ultimately show ?thesis by blast
  next
    case True
    then obtain zs where ys: "ys = nb # zs" using ys_nb by blast
    let ?v = "size_md (hdr st b) + (sizeof_md + size_md (hdr st nb))"
    let ?st' = "set_size b ?v (remove_from_free_list (insert_into_free_list st b) nb)"
    from True have eq: "myfree st ?p = ?st'" and fc': "free_chain (myfree st ?p) (b # remove1 nb fl)"
      using mf by auto
    have sz': "size_md (hdr ?st' x) = (if x = b then ?v else size_md (hdr st x))" for x
      by (simp add: set_size_frame remove_frame insert_frame)
    have cf': "check_free (hdr ?st' x) = (if x = b then 1 else check_free (hdr st x))" for x
      by (simp add: set_size_frame remove_frame insert_frame)
    from lys ys have lzs: "lay (hdr st) (a' + 32 + unat (size_md (hdr st nb))) zs ?e"
      by (simp add: unb)
    from lay_le[OF lzs] nw have uv: "unat ?v = unat (size_md (hdr st b)) + 32 + unat (size_md (hdr st nb))"
      by (simp add: a'_def unat_add64 sizeof_md_def)
    from dbs bs ys have bzs: "b \<notin> set zs" and nbxs: "nb \<notin> set xs" and nbzs: "nb \<notin> set zs" by auto
    have "lay (hdr ?st') (unat (base st)) xs (unat b) = lay (hdr st) (unat (base st)) xs (unat b)"
      using bxs by (intro lay_cong) (auto simp: sz')
    moreover have "lay (hdr ?st') (a' + 32 + unat (size_md (hdr st nb))) zs ?e
                   = lay (hdr st) (a' + 32 + unat (size_md (hdr st nb))) zs ?e"
      using bzs by (intro lay_cong) (auto simp: sz')
    ultimately have l': "lay (hdr ?st') (unat (base st)) (xs @ b # zs) ?e"
      using lxs lzs by (simp add: lay_append sz' uv a'_def add.assoc)
    have sub': "set (b # remove1 nb fl) \<subseteq> set (xs @ b # zs)"
      using sub dfl bs ys by auto
    have mem': "\<forall>a\<in>set (xs @ b # zs). a \<in> set (b # remove1 nb fl) \<longleftrightarrow> check_free (hdr ?st' a) \<noteq> 0"
      using mem dfl bs ys nbxs nbzs by (auto simp: cf')
    from l' fc' sub' mem' bpos u have "wf (myfree st ?p) (xs @ b # zs) (b # remove1 nb fl)"
      unfolding wf_def eq by (simp add: set_size_frame remove_frame insert_frame)
    moreover have "\<forall>x\<in>set bs. x \<noteq> b \<and> check_free (hdr st x) = 0 \<longrightarrow>
               x \<in> set (xs @ b # zs) \<and> check_free (hdr (myfree st ?p) x) = 0"
      using True bs ys by (auto simp: eq cf')
    ultimately show ?thesis by blast
  qed
qed

lemma wf_memcpy [simp]: "wf (memcpy q p m st) bs fl = wf st bs fl"
  by (simp add: wf_def memcpy_def)

lemma wf_myrealloc:
  assumes wf: "wf st bs fl" and bb: "b \<in> set bs" and live: "check_free (hdr st b) = 0"
    and n: "unat n + 32 + unat CAP < 2 ^ 64"
    and grow: "b + sizeof_md + size_md (hdr st b) = base st + used st \<longrightarrow>
               unat (used st) - unat (size_md (hdr st b)) + unat n \<le> unat CAP"
  shows "\<exists>st' q bs' fl'. myrealloc st (b + sizeof_md) n = Some (st', q) \<and> wf st' bs' fl'"
proof -
  let ?p = "b + sizeof_md"
  define old where "old = size_md (hdr st b)"
  note pos = wf_block_pos[OF wf bb]
  note nw = wf_nowrap[OF wf]
  from wf have fc: "free_chain st fl" and sub: "set fl \<subseteq> set bs"
    and mem: "\<forall>a\<in>set bs. a \<in> set fl \<longleftrightarrow> check_free (hdr st a) \<noteq> 0"
    and l: "lay (hdr st) (unat (base st)) bs (unat (base st) + unat (used st))"
    and u: "used st \<le> CAP" and bpos: "0 < unat (base st)" "unat (base st) + unat CAP < 2 ^ 64"
    by (simp_all add: wf_def)
  let ?e = "unat (base st) + unat (used st)"
  show ?thesis
  proof (cases "n = 0")
    case True
    with wf_myfree[OF wf bb live] show ?thesis by (auto simp: myrealloc_def)
  next
    case n0: False
    show ?thesis
    proof (cases "?p + old = base st + used st")
      case True
      let ?u' = "if old < n then used st + (n - old) else used st - (old - n)"
      let ?st' = "set_size b n (st\<lparr>used := ?u'\<rparr>)"
      have r: "myrealloc st ?p n = Some (?st', ?p)"
        using n0 pos(5) True by (simp add: myrealloc_def Let_def old_def)
      have ue: "unat (base st + used st) = ?e" using nw by (simp add: unat_add64)
      have "unat (?p + old) = unat b + 32 + unat old"
        using pos(2,4) nw by (simp add: unat_add64 old_def)
      with True ue have end_b: "unat b + 32 + unat old = ?e" by simp
      from True grow have cap: "unat (used st) - unat old + unat n \<le> unat CAP"
        by (simp add: old_def)
      from end_b pos(1) have uo: "unat old + 32 \<le> unat (used st)" by simp
      have uu: "unat ?u' = unat (used st) - unat old + unat n"
      proof (cases "old < n")
        case True
        then have "old \<le> n" by simp
        with True have "unat (n - old) = unat n - unat old" "unat old < unat n"
          by (simp_all add: unat_sub word_less_nat_alt)
        moreover from this cap uo bpos have "unat (used st) + (unat n - unat old) < 2 ^ 64" by simp
        ultimately show ?thesis using True uo by (simp add: unat_add64)
      next
        case False
        then have le: "n \<le> old" by simp
        then have d: "unat (old - n) = unat old - unat n" "unat n \<le> unat old"
          by (simp_all add: unat_sub word_le_nat_alt)
        with uo have "old - n \<le> used st" by (simp add: word_le_nat_alt)
        then have "unat (used st - (old - n)) = unat (used st) - (unat old - unat n)"
          using d by (simp add: unat_sub)
        with False d uo show ?thesis by simp
      qed
      from bb obtain xs ys where bs: "bs = xs @ b # ys" by (auto dest: split_list)
      with l have lxs: "lay (hdr st) (unat (base st)) xs (unat b)"
        and lys: "lay (hdr st) (unat b + 32 + unat old) ys ?e"
        by (auto simp: lay_append old_def)
      have ys: "ys = []"
      proof (cases ys)
        case (Cons y zs)
        with lys have "lay (hdr st) (unat b + 32 + unat old + 32 + unat (size_md (hdr st y))) zs ?e" by simp
        from lay_le[OF this] end_b show ?thesis by simp
      qed simp
      from lay_distinct[OF l] bs have bxs: "b \<notin> set xs" by auto
      have "lay (hdr ?st') (unat (base st)) xs (unat b) = lay (hdr st) (unat (base st)) xs (unat b)"
        using bxs by (intro lay_cong) (auto simp: set_size_frame)
      with lxs have "lay (hdr ?st') (unat (base st)) (xs @ [b]) (unat b + 32 + unat n)"
        by (simp add: lay_append set_size_frame)
      moreover have "unat b + 32 + unat n = unat (base st) + unat ?u'"
        using uu end_b uo by simp
      ultimately have l': "lay (hdr ?st') (unat (base ?st')) bs (unat (base ?st') + unat (used ?st'))"
        using bs ys by (simp add: set_size_frame)
      have "used ?st' \<le> CAP" using uu cap by (simp add: set_size_frame word_le_nat_alt)
      with l' fc sub mem bpos have "wf ?st' bs fl"
        unfolding wf_def by (simp add: set_size_frame)
      with r show ?thesis by blast
    next
      case False
      from wf_mymalloc[OF wf n] obtain st1 q bs1 fl1 where
        m: "mymalloc st n = Some (st1, q)" and wf1: "wf st1 bs1 fl1"
        and q: "if q = 0 then st1 = st
            else q - sizeof_md \<in> set bs1 \<and> check_free (hdr st1 (q - sizeof_md)) = 0 \<and>
                 n \<le> size_md (hdr st1 (q - sizeof_md)) \<and>
                 (\<forall>x\<in>set bs. x \<in> set bs1 \<and> (check_free (hdr st x) = 0 \<longrightarrow> check_free (hdr st1 x) = 0 \<and> x \<noteq> q - sizeof_md))"
        by blast
      show ?thesis
      proof (cases "q = 0")
        case True
        with m n0 pos(5) False have "myrealloc st ?p n = Some (st1, 0)"
          by (simp add: myrealloc_def Let_def old_def)
        with wf1 show ?thesis by blast
      next
        case q0: False
        let ?m = "if old < n then old else n"
        from m n0 pos(5) False q0
        have r: "myrealloc st ?p n = Some (myfree (memcpy q ?p ?m st1) ?p, q)"
          by (simp add: myrealloc_def Let_def old_def)
        from q q0 bb live have b1: "b \<in> set bs1" "check_free (hdr st1 b) = 0" by auto
        have "wf (memcpy q ?p ?m st1) bs1 fl1" using wf1 by simp
        moreover have "check_free (hdr (memcpy q ?p ?m st1) b) = 0"
          using b1 by (simp add: memcpy_def)
        ultimately obtain bs' fl' where "wf (myfree (memcpy q ?p ?m st1) ?p) bs' fl'"
          using wf_myfree[of "memcpy q ?p ?m st1" bs1 fl1 b] b1 by blast
        with r show ?thesis by blast
      qed
    qed
  qed
qed

lemma reachable_wf: "reachable st \<Longrightarrow> \<exists>bs fl. wf st bs fl"
proof (induction rule: reachable.induct)
  case (init b st)
  then show ?case using wf_init by blast
next
  case (reset st)
  then show ?case using wf_reset by blast
next
  case (malloc st sz st' p)
  then obtain bs fl where "wf st bs fl" by blast
  from wf_mymalloc[OF this malloc.hyps(2)] malloc.hyps(3) show ?case by auto
next
  case (free st p)
  then obtain bs fl where wf: "wf st bs fl" by blast
  show ?case
  proof (cases "p = 0")
    case True
    with wf show ?thesis by (auto simp: myfree_def)
  next
    case False
    with free.hyps(2) have "p - sizeof_md \<in> set bs" "check_free (hdr st (p - sizeof_md)) = 0"
      by (simp_all add: live_def wf_blocks[OF wf])
    from wf_myfree[OF wf this] show ?thesis by auto
  qed
next
  case (realloc st p n st' q)
  then obtain bs fl where wf: "wf st bs fl" by blast
  show ?case
  proof (cases "p = 0")
    case True
    show ?thesis
    proof (cases "n = 0")
      case True
      with \<open>p = 0\<close> realloc.hyps(5) wf show ?thesis by (auto simp: myrealloc_def myfree_def)
    next
      case False
      with \<open>p = 0\<close> realloc.hyps(5) have "mymalloc st n = Some (st', q)" by (simp add: myrealloc_def)
      with wf_mymalloc[OF wf realloc.hyps(3)] show ?thesis by auto
    qed
  next
    case False
    with realloc.hyps(2) have b: "p - sizeof_md \<in> set bs" "check_free (hdr st (p - sizeof_md)) = 0"
      by (simp_all add: live_def wf_blocks[OF wf])
    from wf_myrealloc[OF wf b realloc.hyps(3)] realloc.hyps(4,5) show ?thesis by auto
  qed
qed

text \<open>
  For these callers both invariants of the data model hold in every pool they reach,
  and every call returns.
\<close>

lemma reachable_invariants: "reachable st \<Longrightarrow> contiguous st \<and> membership st"
  using reachable_wf wf_contiguous wf_membership by blast

lemma reachable_fresh: "reachable fresh"
  unfolding fresh_def by (rule reachable.init) (simp_all add: CAP_def)

lemma reachable_mymalloc_returns: "reachable st \<Longrightarrow> \<exists>r. mymalloc st sz = Some r"
  using reachable_wf mymalloc_returns by (fastforce simp: wf_def)

lemma reachable_myrealloc_returns:
  assumes "reachable st"
  shows "\<exists>r. myrealloc st p n = Some r"
proof -
  from reachable_mymalloc_returns[OF assms, of n] obtain st1 q where "mymalloc st n = Some (st1, q)"
    by fastforce
  then show ?thesis by (simp add: myrealloc_def Let_def)
qed

subsection \<open>Reallocation\<close>

text \<open>
  The in-place path of \<^verbatim>\<open>myrealloc\<close>: for \<open>p\<close> non-null, \<open>n\<close> non-zero and the payload of
  \<open>p\<close> ending exactly at \<open>base + used\<close>, the call returns \<open>p\<close>, gives its header the
  size \<open>n\<close> and changes nothing else but \<^verbatim>\<open>used\<close>, which becomes \<open>used + (n - old_size)\<close>
  or \<open>used - (old_size - n)\<close> in the arithmetic of \<^verbatim>\<open>size_t\<close>. That is the natural number
  \<open>used - old_size + n\<close> only while this number is below \<open>2\<^sup>6\<^sup>4\<close>.
\<close>

lemma realloc_tail_in_place:
  assumes "p \<noteq> 0" and "n \<noteq> 0"
    and "p + size_md (hdr st (p - sizeof_md)) = base st + used st"
  shows "\<exists>st'. myrealloc st p n = Some (st', p) \<and>
           used st' = (if size_md (hdr st (p - sizeof_md)) < n
                       then used st + (n - size_md (hdr st (p - sizeof_md)))
                       else used st - (size_md (hdr st (p - sizeof_md)) - n)) \<and>
           (size_md (hdr st (p - sizeof_md)) \<le> used st \<and>
            unat (used st) - unat (size_md (hdr st (p - sizeof_md))) + unat n < 2 ^ 64 \<longrightarrow>
              unat (used st') = unat (used st) - unat (size_md (hdr st (p - sizeof_md))) + unat n) \<and>
           hdr st' = (hdr st)(p - sizeof_md := (hdr st (p - sizeof_md))\<lparr>size_md := n\<rparr>) \<and>
           bytes st' = bytes st \<and> base st' = base st \<and> free_list st' = free_list st"
proof -
  let ?old = "size_md (hdr st (p - sizeof_md))"
  let ?u' = "if ?old < n then used st + (n - ?old) else used st - (?old - n)"
  have "myrealloc st p n = Some (set_size (p - sizeof_md) n (st\<lparr>used := ?u'\<rparr>), p)"
    using assms by (simp add: myrealloc_def Let_def)
  moreover have "?old \<le> used st \<and> unat (used st) - unat ?old + unat n < 2 ^ 64 \<longrightarrow>
      unat ?u' = unat (used st) - unat ?old + unat n"
    using resized_used[of ?old "used st" n] by blast
  ultimately show ?thesis
    by (simp add: set_size_frame) (simp add: set_size_def)
qed




lemma free_chain_memcpy [simp]: "free_chain (memcpy q p m st) fl = free_chain st fl"
  by (simp add: memcpy_def)




section \<open>The claims\<close>

text \<open>
  Claim C1 (bump allocation when no free block fits: failure without any change when
  \<open>used + header_size + size\<close> exceeds \<^verbatim>\<open>CAP\<close>, a new block at \<open>base + used\<close> otherwise).
  The code computes \<open>sizeof(md) + size\<close> and \<open>used + total\<close> in \<^verbatim>\<open>size_t\<close>, where they wrap
  around. On a fresh pool \<^verbatim>\<open>mymalloc(SIZE_MAX)\<close> finds an empty free list; the sum
  \<open>0 + 32 + (2\<^sup>6\<^sup>4 - 1)\<close> exceeds \<^verbatim>\<open>CAP\<close>, yet the call does not fail: it writes a header of
  size \<open>2\<^sup>6\<^sup>4 - 1\<close> at the base, advances \<^verbatim>\<open>used\<close> to 31 and returns the payload pointer
  4128. (Lemma \<open>mymalloc_bump_in_range\<close> above is the claim for the requests whose sums
  do not wrap.)
\<close>

theorem malloc_size_max_succeeds:
  "free_chain fresh [] \<and>
   unat CAP < unat (used fresh) + unat sizeof_md + unat (18446744073709551615 :: size_t) \<and>
   mymalloc fresh 18446744073709551615
     = Some (pool 31 0 (blank(4096 := zero_md\<lparr>size_md := 18446744073709551615\<rparr>)), 4128)"
  by (simp add: free_chain_def mymalloc_empty conc_defs field_defs)

text \<open>
  Claim C2 (contiguity after every sequence of operations from \<^verbatim>\<open>allocator_init\<close>). The
  fresh pool is contiguous. After \<^verbatim>\<open>mymalloc(SIZE_MAX)\<close>, which succeeds as shown for C1,
  \<^verbatim>\<open>used\<close> is 31 while the one block starts with a header of 32 bytes: the pool is no
  longer contiguous. The next \<^verbatim>\<open>mymalloc(8)\<close> puts its header at offset 31, inside the
  first header, and the pool stays non-contiguous.
\<close>

theorem malloc_size_max_breaks_contiguity:
  "contiguous fresh \<and>
   mymalloc fresh 18446744073709551615
     = Some (pool 31 0 (blank(4096 := zero_md\<lparr>size_md := 18446744073709551615\<rparr>)), 4128) \<and>
   \<not> contiguous (pool 31 0 (blank(4096 := zero_md\<lparr>size_md := 18446744073709551615\<rparr>))) \<and>
   mymalloc (pool 31 0 (blank(4096 := zero_md\<lparr>size_md := 18446744073709551615\<rparr>))) 8
     = Some (pool 71 0 (blank(4096 := zero_md\<lparr>size_md := 18446744073709551615\<rparr>,
                             4127 := zero_md\<lparr>size_md := 8\<rparr>)), 4159) \<and>
   \<not> contiguous (pool 71 0 (blank(4096 := zero_md\<lparr>size_md := 18446744073709551615\<rparr>,
                                   4127 := zero_md\<lparr>size_md := 8\<rparr>)))"
  by (simp add: contiguous_def mymalloc_empty conc_defs field_defs)

text \<open>
  Claim C3 (a block within \<open>[0, used)\<close> is linked into the free list if and only if its
  flag is set, after every operation). On a fresh pool, where the invariant holds,
  \<^verbatim>\<open>a = mymalloc(2\<^sup>6\<^sup>4 - 32)\<close> computes the total 0: it writes a header at the base and
  leaves \<^verbatim>\<open>used\<close> at 0. \<^verbatim>\<open>myfree(a)\<close> links that header. \<^verbatim>\<open>mymalloc(SIZE_MAX)\<close> then finds
  no fitting block and takes the bump path with total 31: it rewrites the same header,
  clears its flag and sets \<^verbatim>\<open>used\<close> to 31, without unlinking it. The block at offset 0 is
  now within \<open>[0, used)\<close> and the head of the free list, with its flag cleared.
\<close>

theorem overflowing_requests_break_membership:
  "membership fresh \<and>
   mymalloc fresh 18446744073709551584
     = Some (pool 0 0 (blank(4096 := zero_md\<lparr>size_md := 18446744073709551584\<rparr>)), 4128) \<and>
   myfree (pool 0 0 (blank(4096 := zero_md\<lparr>size_md := 18446744073709551584\<rparr>))) 4128
     = pool 0 4096 (blank(4096 := zero_md\<lparr>size_md := 18446744073709551584, check_free := 1\<rparr>)) \<and>
   mymalloc (pool 0 4096 (blank(4096 := zero_md\<lparr>size_md := 18446744073709551584, check_free := 1\<rparr>)))
       18446744073709551615
     = Some (pool 31 4096 (blank(4096 := zero_md\<lparr>size_md := 18446744073709551615\<rparr>)), 4128) \<and>
   \<not> membership (pool 31 4096 (blank(4096 := zero_md\<lparr>size_md := 18446744073709551615\<rparr>)))"
proof -
  let ?sA = "pool 0 0 (blank(4096 := zero_md\<lparr>size_md := 18446744073709551584\<rparr>))"
  let ?sB = "pool 0 4096 (blank(4096 := zero_md\<lparr>size_md := 18446744073709551584, check_free := 1\<rparr>))"
  let ?sC = "pool 31 4096 (blank(4096 := zero_md\<lparr>size_md := 18446744073709551615\<rparr>))"
  have m0: "membership fresh"
    by (simp add: membership_def blocks_none conc_defs)
  have a: "mymalloc fresh 18446744073709551584 = Some (?sA, 4128)"
    by (simp add: mymalloc_empty conc_defs field_defs)
  have b: "myfree ?sA 4128 = ?sB"
    by (simp add: myfree_def merge_blocks_def merge_next_def merge_prev_def insert_into_free_list_def
        conc_defs field_defs)
  have c: "mymalloc ?sB 18446744073709551615 = Some (?sC, 4128)"
    by (simp add: mymalloc_def first_fit.simps conc_defs field_defs)
  have "blocks ?sC = [4096]"
    by (simp add: blocks_short conc_defs)
  moreover have "linked (hdr ?sC) (free_list ?sC) 4096"
    by (simp add: conc_defs linked.here)
  moreover have "check_free (hdr ?sC 4096) = 0"
    by (simp add: conc_defs)
  ultimately have "\<not> membership ?sC"
    by (simp add: membership_def)
  with m0 a b c show ?thesis by simp
qed

text \<open>
  The instance of the invariant that fails in the last pool: its only block within
  \<open>[0, used)\<close> is the one at 4096, which the free list reaches and whose flag is 0.
\<close>

theorem overflowing_requests_break_membership_witness:
  "blocks (pool 31 4096 (blank(4096 := zero_md\<lparr>size_md := 18446744073709551615\<rparr>))) = [4096] \<and>
   linked (hdr (pool 31 4096 (blank(4096 := zero_md\<lparr>size_md := 18446744073709551615\<rparr>))))
          (free_list (pool 31 4096 (blank(4096 := zero_md\<lparr>size_md := 18446744073709551615\<rparr>)))) 4096 \<and>
   check_free (hdr (pool 31 4096 (blank(4096 := zero_md\<lparr>size_md := 18446744073709551615\<rparr>))) 4096) = 0 \<and>
   \<not> membership (pool 31 4096 (blank(4096 := zero_md\<lparr>size_md := 18446744073709551615\<rparr>)))"
proof -
  let ?sC = "pool 31 4096 (blank(4096 := zero_md\<lparr>size_md := 18446744073709551615\<rparr>))"
  have "blocks ?sC = [4096]"
    by (simp add: blocks_short conc_defs)
  moreover have "linked (hdr ?sC) (free_list ?sC) 4096"
    by (simp add: conc_defs linked.here)
  moreover have "check_free (hdr ?sC 4096) = 0"
    by (simp add: conc_defs)
  moreover from overflowing_requests_break_membership have "\<not> membership ?sC"
    by (elim conjE)
  ultimately show ?thesis by (intro conjI)
qed

text \<open>
  Claim C4. Let \<^verbatim>\<open>myfree(p)\<close> be called with \<open>p\<close> non-null on a pool whose free list is
  the well-formed chain \<open>fl\<close>, for a block \<open>b = p - sizeof(md)\<close> that is not in it, and
  let \<open>nb = b + sizeof(md) + b.size\<close> be another header than \<open>b\<close>, listed in \<open>fl\<close> when it
  lies below \<open>base + used\<close> with its flag set. If \<open>nb\<close> lies below \<open>base + used\<close> with its
  flag set, then afterwards the free list is \<open>b\<close> followed by \<open>fl\<close> without \<open>nb\<close>, and
  the size of \<open>b\<close> has grown by exactly \<open>sizeof(md) + nb.size\<close>. Otherwise the free list
  is \<open>b\<close> followed by \<open>fl\<close> and the size of \<open>b\<close> is unchanged. In both cases \<open>b\<close> is
  flagged free, no other header changes size or flag, and \<^verbatim>\<open>used\<close>, \<^verbatim>\<open>base\<close> and the
  payload bytes stay as they were.
\<close>

theorem free_forward_merge:
  assumes "free_chain st fl" and "p \<noteq> 0" and "b = p - sizeof_md" and "b \<noteq> 0" and "b \<notin> set fl"
    and "nb = b + sizeof_md + size_md (hdr st b)" and "nb \<noteq> b"
    and "nb < base st + used st \<and> check_free (hdr st nb) \<noteq> 0 \<longrightarrow> nb \<in> set fl"
  shows "(if nb < base st + used st \<and> check_free (hdr st nb) \<noteq> 0
          then free_chain (myfree st p) (b # remove1 nb fl) \<and>
               size_md (hdr (myfree st p) b) = size_md (hdr st b) + (sizeof_md + size_md (hdr st nb))
          else free_chain (myfree st p) (b # fl) \<and>
               size_md (hdr (myfree st p) b) = size_md (hdr st b)) \<and>
         check_free (hdr (myfree st p) b) = 1 \<and>
         (\<forall>a. a \<noteq> b \<longrightarrow> size_md (hdr (myfree st p) a) = size_md (hdr st a) \<and>
                      check_free (hdr (myfree st p) a) = check_free (hdr st a)) \<and>
         used (myfree st p) = used st \<and> base (myfree st p) = base st \<and>
         bytes (myfree st p) = bytes st"
proof (cases "nb < base st + used st \<and> check_free (hdr st nb) \<noteq> 0")
  case True
  with myfree_chain[OF assms] show ?thesis
    by (simp add: set_size_frame remove_frame insert_frame)
next
  case False
  with myfree_chain[OF assms] show ?thesis
    by (auto simp add: set_size_frame remove_frame insert_frame)
qed

text \<open>
  Two instances: freeing the block at 4096 whose neighbour at 4136 is free (merged
  to size 48), and freeing the last block at 4136, whose successor address 4176 is
  \<open>base + used\<close> (left at size 8).
\<close>

theorem free_forward_merge_witness:
  "free_chain (pool 80 4136 (blank(4096 := zero_md\<lparr>size_md := 8\<rparr>,
                                  4136 := zero_md\<lparr>size_md := 8, check_free := 1\<rparr>))) [4136] \<and>
   free_chain (myfree (pool 80 4136 (blank(4096 := zero_md\<lparr>size_md := 8\<rparr>,
                                  4136 := zero_md\<lparr>size_md := 8, check_free := 1\<rparr>))) 4128) [4096] \<and>
   size_md (hdr (myfree (pool 80 4136 (blank(4096 := zero_md\<lparr>size_md := 8\<rparr>,
                                  4136 := zero_md\<lparr>size_md := 8, check_free := 1\<rparr>))) 4128) 4096) = 48 \<and>
   free_chain (pool 80 0 (blank(4096 := zero_md\<lparr>size_md := 8\<rparr>, 4136 := zero_md\<lparr>size_md := 8\<rparr>))) [] \<and>
   free_chain (myfree (pool 80 0 (blank(4096 := zero_md\<lparr>size_md := 8\<rparr>,
                                  4136 := zero_md\<lparr>size_md := 8\<rparr>))) 4168) [4136] \<and>
   size_md (hdr (myfree (pool 80 0 (blank(4096 := zero_md\<lparr>size_md := 8\<rparr>,
                                  4136 := zero_md\<lparr>size_md := 8\<rparr>))) 4168) 4136) = 8"
proof -
  let ?s = "pool 80 4136 (blank(4096 := zero_md\<lparr>size_md := 8\<rparr>,
                                  4136 := zero_md\<lparr>size_md := 8, check_free := 1\<rparr>))"
  have fc: "free_chain ?s [4136]" by (simp add: free_chain_def conc_defs)
  have b: "(4096 :: addr) = 4128 - sizeof_md" "(4096 :: addr) \<noteq> 0" "(4096 :: addr) \<notin> set [4136]"
    by (simp_all add: sizeof_md_def)
  have nb: "(4136 :: addr) = 4096 + sizeof_md + size_md (hdr ?s 4096)" "(4136 :: addr) \<noteq> 4096"
    by (simp_all add: conc_defs)
  have c: "4136 < base ?s + used ?s \<and> check_free (hdr ?s 4136) \<noteq> 0"
    by (simp add: conc_defs)
  then have mem: "4136 < base ?s + used ?s \<and> check_free (hdr ?s 4136) \<noteq> 0 \<longrightarrow> 4136 \<in> set [4136]"
    by simp
  from free_forward_merge[OF fc _ b nb mem] c
  have one: "free_chain (myfree ?s 4128) [4096] \<and> size_md (hdr (myfree ?s 4128) 4096) = 48"
    by (simp add: conc_defs)
  let ?t = "pool 80 0 (blank(4096 := zero_md\<lparr>size_md := 8\<rparr>, 4136 := zero_md\<lparr>size_md := 8\<rparr>))"
  have fc': "free_chain ?t []" by (simp add: free_chain_def conc_defs)
  have b': "(4136 :: addr) = 4168 - sizeof_md" "(4136 :: addr) \<noteq> 0" "(4136 :: addr) \<notin> set []"
    by (simp_all add: sizeof_md_def)
  have nb': "(4176 :: addr) = 4136 + sizeof_md + size_md (hdr ?t 4136)" "(4176 :: addr) \<noteq> 4136"
    by (simp_all add: conc_defs)
  have c': "\<not> (4176 < base ?t + used ?t \<and> check_free (hdr ?t 4176) \<noteq> 0)"
    by (simp add: conc_defs)
  then have mem': "4176 < base ?t + used ?t \<and> check_free (hdr ?t 4176) \<noteq> 0 \<longrightarrow> 4176 \<in> set []"
    by simp
  from free_forward_merge[OF fc' _ b' nb' mem'] c'
  have two: "free_chain (myfree ?t 4168) [4136] \<and> size_md (hdr (myfree ?t 4168) 4136) = 8"
    by (simp add: conc_defs)
  from fc one fc' two show ?thesis by simp
qed

text \<open>
  Claim C5 (two adjacent blocks freed in either order give one free block of the two
  sizes plus one header, and a request of that size is then served without advancing
  \<^verbatim>\<open>used\<close>). Head-then-tail, on a fresh pool: two blocks of 8 bytes are allocated at
  4096 and 4136; the first is freed, then the second. The second step of
  \<^verbatim>\<open>merge_blocks\<close> looks at \<^verbatim>\<open>block->prev\<close>, which is \<^verbatim>\<open>NULL\<close> for the block just pushed
  on the list, so nothing is merged: two free blocks of size 8 remain, and \<^verbatim>\<open>mymalloc(48)\<close>
  takes the bump path, \<^verbatim>\<open>used\<close> going from 80 to 160.
\<close>

theorem head_then_tail_not_coalesced:
  "mymalloc fresh 8 = Some (pool 40 0 (blank(4096 := zero_md\<lparr>size_md := 8\<rparr>)), 4128) \<and>
   mymalloc (pool 40 0 (blank(4096 := zero_md\<lparr>size_md := 8\<rparr>))) 8
     = Some (pool 80 0 (blank(4096 := zero_md\<lparr>size_md := 8\<rparr>, 4136 := zero_md\<lparr>size_md := 8\<rparr>)), 4168) \<and>
   myfree (pool 80 0 (blank(4096 := zero_md\<lparr>size_md := 8\<rparr>, 4136 := zero_md\<lparr>size_md := 8\<rparr>))) 4128
     = pool 80 4096 (blank(4096 := zero_md\<lparr>size_md := 8, check_free := 1\<rparr>, 4136 := zero_md\<lparr>size_md := 8\<rparr>)) \<and>
   myfree (pool 80 4096 (blank(4096 := zero_md\<lparr>size_md := 8, check_free := 1\<rparr>, 4136 := zero_md\<lparr>size_md := 8\<rparr>))) 4168
     = pool 80 4136 (blank(4096 := \<lparr>size_md = 8, check_free = 1, next = 0, prev = 4136\<rparr>,
                           4136 := \<lparr>size_md = 8, check_free = 1, next = 4096, prev = 0\<rparr>)) \<and>
   mymalloc (pool 80 4136 (blank(4096 := \<lparr>size_md = 8, check_free = 1, next = 0, prev = 4136\<rparr>,
                           4136 := \<lparr>size_md = 8, check_free = 1, next = 4096, prev = 0\<rparr>))) 48
     = Some (pool 160 4136 (blank(4096 := \<lparr>size_md = 8, check_free = 1, next = 0, prev = 4136\<rparr>,
                           4136 := \<lparr>size_md = 8, check_free = 1, next = 4096, prev = 0\<rparr>,
                           4176 := zero_md\<lparr>size_md := 48\<rparr>)), 4208)"
proof -
  have a: "mymalloc fresh 8 = Some (pool 40 0 (blank(4096 := zero_md\<lparr>size_md := 8\<rparr>)), 4128)"
    by (simp add: mymalloc_empty conc_defs field_defs)
  have b: "mymalloc (pool 40 0 (blank(4096 := zero_md\<lparr>size_md := 8\<rparr>))) 8
     = Some (pool 80 0 (blank(4096 := zero_md\<lparr>size_md := 8\<rparr>, 4136 := zero_md\<lparr>size_md := 8\<rparr>)), 4168)"
    by (simp add: mymalloc_empty conc_defs field_defs)
  have c: "myfree (pool 80 0 (blank(4096 := zero_md\<lparr>size_md := 8\<rparr>, 4136 := zero_md\<lparr>size_md := 8\<rparr>))) 4128
     = pool 80 4096 (blank(4096 := zero_md\<lparr>size_md := 8, check_free := 1\<rparr>, 4136 := zero_md\<lparr>size_md := 8\<rparr>))"
    by (simp add: myfree_def merge_blocks_def merge_next_def merge_prev_def insert_into_free_list_def
        conc_defs field_defs fun_eq_iff)
  have d: "myfree (pool 80 4096 (blank(4096 := zero_md\<lparr>size_md := 8, check_free := 1\<rparr>, 4136 := zero_md\<lparr>size_md := 8\<rparr>))) 4168
     = pool 80 4136 (blank(4096 := \<lparr>size_md = 8, check_free = 1, next = 0, prev = 4136\<rparr>,
                           4136 := \<lparr>size_md = 8, check_free = 1, next = 4096, prev = 0\<rparr>))"
    by (simp add: myfree_def merge_blocks_def merge_next_def merge_prev_def insert_into_free_list_def
        conc_defs field_defs fun_eq_iff)
  have e: "mymalloc (pool 80 4136 (blank(4096 := \<lparr>size_md = 8, check_free = 1, next = 0, prev = 4136\<rparr>,
                           4136 := \<lparr>size_md = 8, check_free = 1, next = 4096, prev = 0\<rparr>))) 48
     = Some (pool 160 4136 (blank(4096 := \<lparr>size_md = 8, check_free = 1, next = 0, prev = 4136\<rparr>,
                           4136 := \<lparr>size_md = 8, check_free = 1, next = 4096, prev = 0\<rparr>,
                           4176 := zero_md\<lparr>size_md := 48\<rparr>)), 4208)"
    by (simp add: mymalloc_def first_fit.simps conc_defs field_defs)
  from a b c d e show ?thesis by (intro conjI)
qed

text \<open>
  The other order, tail-then-head, from the same two blocks: the first step of
  \<^verbatim>\<open>merge_blocks\<close> absorbs the block at 4136 into the one at 4096, whose size becomes
  \<open>8 + 32 + 8\<close>, and \<^verbatim>\<open>mymalloc(48)\<close> is served from it with \<^verbatim>\<open>used\<close> still 80.
\<close>

lemma tail_then_head_coalesced:
  "myfree (pool 80 0 (blank(4096 := zero_md\<lparr>size_md := 8\<rparr>, 4136 := zero_md\<lparr>size_md := 8\<rparr>))) 4168
     = pool 80 4136 (blank(4096 := zero_md\<lparr>size_md := 8\<rparr>, 4136 := zero_md\<lparr>size_md := 8, check_free := 1\<rparr>)) \<and>
   myfree (pool 80 4136 (blank(4096 := zero_md\<lparr>size_md := 8\<rparr>, 4136 := zero_md\<lparr>size_md := 8, check_free := 1\<rparr>))) 4128
     = pool 80 4096 (blank(4096 := zero_md\<lparr>size_md := 48, check_free := 1\<rparr>,
                           4136 := zero_md\<lparr>size_md := 8, check_free := 1, prev := 4096\<rparr>)) \<and>
   mymalloc (pool 80 4096 (blank(4096 := zero_md\<lparr>size_md := 48, check_free := 1\<rparr>,
                           4136 := zero_md\<lparr>size_md := 8, check_free := 1, prev := 4096\<rparr>))) 48
     = Some (pool 80 0 (blank(4096 := zero_md\<lparr>size_md := 48\<rparr>,
                             4136 := zero_md\<lparr>size_md := 8, check_free := 1, prev := 4096\<rparr>)), 4128)"
proof (intro conjI)
  show "myfree (pool 80 0 (blank(4096 := zero_md\<lparr>size_md := 8\<rparr>, 4136 := zero_md\<lparr>size_md := 8\<rparr>))) 4168
     = pool 80 4136 (blank(4096 := zero_md\<lparr>size_md := 8\<rparr>, 4136 := zero_md\<lparr>size_md := 8, check_free := 1\<rparr>))"
    by (simp add: myfree_def merge_blocks_def merge_next_def merge_prev_def insert_into_free_list_def
        conc_defs field_defs fun_eq_iff)
  show "myfree (pool 80 4136 (blank(4096 := zero_md\<lparr>size_md := 8\<rparr>, 4136 := zero_md\<lparr>size_md := 8, check_free := 1\<rparr>))) 4128
     = pool 80 4096 (blank(4096 := zero_md\<lparr>size_md := 48, check_free := 1\<rparr>,
                           4136 := zero_md\<lparr>size_md := 8, check_free := 1, prev := 4096\<rparr>))"
    by (simp add: myfree_def merge_blocks_def merge_next_def merge_prev_def insert_into_free_list_def
        remove_from_free_list_def conc_defs field_defs fun_eq_iff)
  show "mymalloc (pool 80 4096 (blank(4096 := zero_md\<lparr>size_md := 48, check_free := 1\<rparr>,
                           4136 := zero_md\<lparr>size_md := 8, check_free := 1, prev := 4096\<rparr>))) 48
     = Some (pool 80 0 (blank(4096 := zero_md\<lparr>size_md := 48\<rparr>,
                             4136 := zero_md\<lparr>size_md := 8, check_free := 1, prev := 4096\<rparr>)), 4128)"
    by (simp add: mymalloc_def first_fit.simps remove_from_free_list_def conc_defs field_defs fun_eq_iff)
qed

text \<open>
  Claim C6 (in-place resize of the tail block: \<^verbatim>\<open>used\<close> advances by
  \<open>new_size - old_size\<close> when growing). The code adds \<open>size - old_size\<close> to \<^verbatim>\<open>used\<close> in
  \<^verbatim>\<open>size_t\<close>, with no test of the capacity and none of a wrap-around. On the pool holding
  one block of 8 bytes, whose payload ends at \<open>base + used\<close>, \<^verbatim>\<open>myrealloc(p, SIZE_MAX)\<close>
  returns \<open>p\<close> and records the size \<open>2\<^sup>6\<^sup>4 - 1\<close>, but \<^verbatim>\<open>used\<close> goes from 40 to 31: it
  retreats by 9 instead of advancing by \<open>2\<^sup>6\<^sup>4 - 9\<close>, and the pool is no longer
  contiguous. (Lemma \<open>realloc_tail_in_place\<close> above is the claim for the sizes that do
  not wrap.)
\<close>

theorem realloc_tail_growth_wraps:
  "mymalloc fresh 8 = Some (pool 40 0 (blank(4096 := zero_md\<lparr>size_md := 8\<rparr>)), 4128) \<and>
   4128 + size_md (hdr (pool 40 0 (blank(4096 := zero_md\<lparr>size_md := 8\<rparr>))) (4128 - sizeof_md))
     = base (pool 40 0 (blank(4096 := zero_md\<lparr>size_md := 8\<rparr>)))
       + used (pool 40 0 (blank(4096 := zero_md\<lparr>size_md := 8\<rparr>))) \<and>
   myrealloc (pool 40 0 (blank(4096 := zero_md\<lparr>size_md := 8\<rparr>))) 4128 18446744073709551615
     = Some (pool 31 0 (blank(4096 := zero_md\<lparr>size_md := 18446744073709551615\<rparr>)), 4128) \<and>
   unat (used (pool 31 0 (blank(4096 := zero_md\<lparr>size_md := 18446744073709551615\<rparr>))))
     < unat (used (pool 40 0 (blank(4096 := zero_md\<lparr>size_md := 8\<rparr>)))) \<and>
   \<not> contiguous (pool 31 0 (blank(4096 := zero_md\<lparr>size_md := 18446744073709551615\<rparr>)))"
  by (simp add: mymalloc_empty myrealloc_def contiguous_def conc_defs field_defs)



text \<open>
  Claim C8. Let the free list be the well-formed chain \<open>xs @ c # ys\<close>, every block of
  \<open>xs\<close> smaller than the request and \<open>c\<close> at least as large: \<open>c\<close> is the first block,
  from the head, that fits. Then \<^verbatim>\<open>mymalloc\<close> returns the payload pointer of \<open>c\<close>; the
  free list is afterwards \<open>xs @ ys\<close>; the flag of \<open>c\<close> is cleared; no header changes
  its size (the block is not split) and no other header its flag; \<^verbatim>\<open>used\<close>, \<^verbatim>\<open>base\<close> and
  the payload bytes stay as they were.
\<close>

theorem malloc_first_fit:
  assumes "free_chain st (xs @ c # ys)"
    and "\<forall>a\<in>set xs. size_md (hdr st a) < sz"
    and "sz \<le> size_md (hdr st c)"
  shows "\<exists>st'. mymalloc st sz = Some (st', c + sizeof_md) \<and>
           free_chain st' (xs @ ys) \<and>
           check_free (hdr st' c) = 0 \<and>
           (\<forall>a. size_md (hdr st' a) = size_md (hdr st a)) \<and>
           (\<forall>a. a \<noteq> c \<longrightarrow> check_free (hdr st' a) = check_free (hdr st a)) \<and>
           used st' = used st \<and> base st' = base st \<and> bytes st' = bytes st"
proof -
  from assms(2,3) have "find (\<lambda>a. sz \<le> size_md (hdr st a)) (xs @ c # ys) = Some c"
    by (intro find_first) (auto simp: not_le)
  then have m: "mymalloc st sz = Some (set_check_free c 0 (remove_from_free_list st c), c + sizeof_md)"
    by (simp add: mymalloc_chain[OF assms(1)])
  from assms(1) have "distinct (xs @ c # ys)" by (simp add: free_chain_def)
  then have "remove1 c (xs @ c # ys) = xs @ ys" by (simp add: remove1_append)
  with remove_free_chain[OF assms(1), of c]
  have "free_chain (remove_from_free_list st c) (xs @ ys)" by simp
  with m show ?thesis by (simp add: set_check_free_frame remove_frame)
qed

text \<open>
  An instance: free blocks of 8 bytes at 4096 and of 16 bytes at 4176, in this order on
  the list, an allocated block between them. A request of 16 bytes skips the first and
  takes the second, whose size stays 16.
\<close>

theorem malloc_first_fit_witness:
  "free_chain (pool 128 4096 (blank(4096 := \<lparr>size_md = 8, check_free = 1, next = 4176, prev = 0\<rparr>,
                                   4136 := zero_md\<lparr>size_md := 8\<rparr>,
                                   4176 := \<lparr>size_md = 16, check_free = 1, next = 0, prev = 4096\<rparr>)))
     ([4096] @ 4176 # []) \<and>
   mymalloc (pool 128 4096 (blank(4096 := \<lparr>size_md = 8, check_free = 1, next = 4176, prev = 0\<rparr>,
                                   4136 := zero_md\<lparr>size_md := 8\<rparr>,
                                   4176 := \<lparr>size_md = 16, check_free = 1, next = 0, prev = 4096\<rparr>))) 16
     = Some (pool 128 4096 (blank(4096 := \<lparr>size_md = 8, check_free = 1, next = 0, prev = 0\<rparr>,
                                   4136 := zero_md\<lparr>size_md := 8\<rparr>,
                                   4176 := \<lparr>size_md = 16, check_free = 0, next = 0, prev = 4096\<rparr>)), 4208) \<and>
   free_chain (pool 128 4096 (blank(4096 := \<lparr>size_md = 8, check_free = 1, next = 0, prev = 0\<rparr>,
                                   4136 := zero_md\<lparr>size_md := 8\<rparr>,
                                   4176 := \<lparr>size_md = 16, check_free = 0, next = 0, prev = 4096\<rparr>))) [4096]"
proof -
  let ?s = "pool 128 4096 (blank(4096 := \<lparr>size_md = 8, check_free = 1, next = 4176, prev = 0\<rparr>,
                                   4136 := zero_md\<lparr>size_md := 8\<rparr>,
                                   4176 := \<lparr>size_md = 16, check_free = 1, next = 0, prev = 4096\<rparr>))"
  let ?t = "pool 128 4096 (blank(4096 := \<lparr>size_md = 8, check_free = 1, next = 0, prev = 0\<rparr>,
                                   4136 := zero_md\<lparr>size_md := 8\<rparr>,
                                   4176 := \<lparr>size_md = 16, check_free = 0, next = 0, prev = 4096\<rparr>))"
  have fc: "free_chain ?s ([4096] @ 4176 # [])" by (simp add: free_chain_def conc_defs)
  have small: "\<forall>a\<in>set [4096]. size_md (hdr ?s a) < 16" by (simp add: conc_defs)
  have fits: "16 \<le> size_md (hdr ?s 4176)" by (simp add: conc_defs)
  from malloc_first_fit[OF fc small fits]
  obtain st' where r: "mymalloc ?s 16 = Some (st', 4176 + sizeof_md)" and fc': "free_chain st' ([4096] @ [])"
    by blast
  have "mymalloc ?s 16 = Some (set_check_free 4176 0 (remove_from_free_list ?s 4176), 4208)"
    by (simp add: mymalloc_def first_fit.simps conc_defs)
  moreover have "set_check_free 4176 0 (remove_from_free_list ?s 4176) = ?t"
    by (simp add: remove_from_free_list_def field_defs conc_defs fun_eq_iff)
  ultimately have e: "mymalloc ?s 16 = Some (?t, 4208)" by simp
  with r have "st' = ?t" by simp
  with fc' have "free_chain ?t [4096]" by simp
  with fc e show ?thesis by simp
qed

text \<open>
  Claim C9, as amended. \<^verbatim>\<open>myfree(NULL)\<close> changes nothing. For every non-zero \<open>n\<close>,
  \<^verbatim>\<open>myrealloc(NULL, n)\<close> is \<^verbatim>\<open>mymalloc(n)\<close>, result and state; \<^verbatim>\<open>myrealloc(NULL, 0)\<close>
  changes nothing and returns \<^verbatim>\<open>NULL\<close>, because the test of the size comes first. For
  every \<open>p\<close>, \<^verbatim>\<open>myrealloc(p, 0)\<close> is \<^verbatim>\<open>myfree(p)\<close> and returns \<^verbatim>\<open>NULL\<close>.
\<close>

theorem null_pointer_and_zero_size:
  "myfree st 0 = st \<and>
   (n \<noteq> 0 \<longrightarrow> myrealloc st 0 n = mymalloc st n) \<and>
   myrealloc st 0 0 = Some (st, 0) \<and>
   myrealloc st p 0 = Some (myfree st p, 0)"
  by (simp add: myfree_def myrealloc_def)

theorem null_pointer_and_zero_size_witness:
  "myrealloc fresh 0 8 = mymalloc fresh 8 \<and>
   mymalloc fresh 8 = Some (pool 40 0 (blank(4096 := zero_md\<lparr>size_md := 8\<rparr>)), 4128)"
  using null_pointer_and_zero_size [of fresh 8]
  by (simp add: mymalloc_empty conc_defs field_defs)

text \<open>
  Claim C9 as stated fails at \<open>n = 0\<close>: on a fresh pool \<^verbatim>\<open>myrealloc(NULL, 0)\<close> returns
  \<^verbatim>\<open>NULL\<close> and leaves the pool as it is, while \<^verbatim>\<open>mymalloc(0)\<close> returns the payload
  pointer 4128 and advances \<^verbatim>\<open>used\<close> to 32.
\<close>

theorem realloc_null_zero_counterexample:
  "myrealloc fresh 0 0 = Some (fresh, 0) \<and>
   mymalloc fresh 0 = Some (pool 32 0 (blank(4096 := zero_md)), 4128) \<and>
   myrealloc fresh 0 0 \<noteq> mymalloc fresh 0"
  by (simp add: myrealloc_def myfree_def mymalloc_empty conc_defs field_defs)

text \<open>
  Claim C10, as amended. \<^verbatim>\<open>mymalloc(0)\<close> with a non-empty well-formed free list returns
  the payload of the head block, which leaves the list with its flag cleared, \<^verbatim>\<open>used\<close>
  unchanged. With an empty free list and \<open>used + sizeof(md) \<le> CAP\<close> it writes a header of
  size 0 and cleared flag at \<open>base + used\<close>, advances \<^verbatim>\<open>used\<close> by exactly \<open>sizeof(md)\<close> and
  returns the address after that header. With an empty free list, \<open>used \<le> CAP\<close> and
  \<open>used + sizeof(md) > CAP\<close> it returns \<^verbatim>\<open>NULL\<close> and changes nothing.
\<close>

theorem malloc_zero:
  "(\<forall>a fl. free_chain st (a # fl) \<longrightarrow>
      (\<exists>st'. mymalloc st 0 = Some (st', a + sizeof_md) \<and> free_chain st' fl \<and>
             check_free (hdr st' a) = 0 \<and> used st' = used st)) \<and>
   (free_list st = 0 \<and> unat (used st) + unat sizeof_md \<le> unat CAP \<longrightarrow>
      mymalloc st 0 =
        Some (set_check_free (base st + used st) 0 (set_size (base st + used st) 0 st)
                \<lparr>used := used st + sizeof_md\<rparr>,
              base st + used st + sizeof_md)) \<and>
   (free_list st = 0 \<and> used st \<le> CAP \<and> unat CAP < unat (used st) + unat sizeof_md \<longrightarrow>
      mymalloc st 0 = Some (st, 0))"
proof (intro conjI allI impI)
  fix a fl assume fc: "free_chain st (a # fl)"
  then have a: "free_list st = a" "a \<noteq> 0" by (auto simp: free_chain_def)
  from remove_free_chain[OF fc, of a] have "free_chain (remove_from_free_list st a) fl" by simp
  with a show "\<exists>st'. mymalloc st 0 = Some (st', a + sizeof_md) \<and> free_chain st' fl \<and>
                   check_free (hdr st' a) = 0 \<and> used st' = used st"
    by (simp add: mymalloc_head set_check_free_frame remove_frame)
next
  assume h: "free_list st = 0 \<and> unat (used st) + unat sizeof_md \<le> unat CAP"
  then have "unat (used st + sizeof_md) = unat (used st) + 32"
    by (simp add: sizeof_md_def CAP_def unat_word_ariths)
  with h show "mymalloc st 0 =
              Some (set_check_free (base st + used st) 0 (set_size (base st + used st) 0 st)
                      \<lparr>used := used st + sizeof_md\<rparr>,
                    base st + used st + sizeof_md)"
    by (simp add: mymalloc_empty word_less_nat_alt sizeof_md_def)
next
  assume h: "free_list st = 0 \<and> used st \<le> CAP \<and> unat CAP < unat (used st) + unat sizeof_md"
  then have "unat (used st) \<le> 134217728" by (simp add: CAP_def word_le_nat_alt)
  then have "unat (used st + sizeof_md) = unat (used st) + 32"
    by (simp add: sizeof_md_def unat_word_ariths)
  with h show "mymalloc st 0 = Some (st, 0)"
    by (simp add: mymalloc_empty word_less_nat_alt sizeof_md_def)
qed

text \<open>
  One instance of each case: a free list with the one block at 4136; an empty free
  list with 40 bytes used; an empty free list with 16 bytes left.
\<close>

theorem malloc_zero_witness:
  "free_chain (pool 80 4136 (blank(4096 := zero_md\<lparr>size_md := 8\<rparr>,
                                  4136 := zero_md\<lparr>size_md := 8, check_free := 1\<rparr>))) (4136 # []) \<and>
   mymalloc (pool 80 4136 (blank(4096 := zero_md\<lparr>size_md := 8\<rparr>,
                                  4136 := zero_md\<lparr>size_md := 8, check_free := 1\<rparr>))) 0
     = Some (pool 80 0 (blank(4096 := zero_md\<lparr>size_md := 8\<rparr>, 4136 := zero_md\<lparr>size_md := 8\<rparr>)), 4168) \<and>
   free_list (pool 40 0 (blank(4096 := zero_md\<lparr>size_md := 8\<rparr>))) = 0 \<and>
   unat (used (pool 40 0 (blank(4096 := zero_md\<lparr>size_md := 8\<rparr>)))) + unat sizeof_md \<le> unat CAP \<and>
   mymalloc (pool 40 0 (blank(4096 := zero_md\<lparr>size_md := 8\<rparr>))) 0
     = Some (pool 72 0 (blank(4096 := zero_md\<lparr>size_md := 8\<rparr>, 4136 := zero_md)), 4168) \<and>
   free_list (pool 134217712 0 (blank(4096 := zero_md\<lparr>size_md := 134217680\<rparr>))) = 0 \<and>
   used (pool 134217712 0 (blank(4096 := zero_md\<lparr>size_md := 134217680\<rparr>))) \<le> CAP \<and>
   unat CAP < unat (used (pool 134217712 0 (blank(4096 := zero_md\<lparr>size_md := 134217680\<rparr>)))) + unat sizeof_md \<and>
   mymalloc (pool 134217712 0 (blank(4096 := zero_md\<lparr>size_md := 134217680\<rparr>))) 0
     = Some (pool 134217712 0 (blank(4096 := zero_md\<lparr>size_md := 134217680\<rparr>)), 0)"
proof -
  let ?s = "pool 80 4136 (blank(4096 := zero_md\<lparr>size_md := 8\<rparr>,
                                  4136 := zero_md\<lparr>size_md := 8, check_free := 1\<rparr>))"
  let ?t = "pool 40 0 (blank(4096 := zero_md\<lparr>size_md := 8\<rparr>))"
  let ?u = "pool 134217712 0 (blank(4096 := zero_md\<lparr>size_md := 134217680\<rparr>))"
  have fc: "free_chain ?s (4136 # [])" by (simp add: free_chain_def conc_defs)
  from malloc_zero[of ?s] fc
  obtain st' where s: "mymalloc ?s 0 = Some (st', 4136 + sizeof_md)"
    by blast
  have "mymalloc ?s 0 = Some (pool 80 0 (blank(4096 := zero_md\<lparr>size_md := 8\<rparr>, 4136 := zero_md\<lparr>size_md := 8\<rparr>)), 4168)"
    using s by (simp add: mymalloc_head remove_from_free_list_def conc_defs field_defs fun_eq_iff)
  moreover
  have t: "free_list ?t = 0 \<and> unat (used ?t) + unat sizeof_md \<le> unat CAP" by (simp add: conc_defs)
  with malloc_zero[of ?t]
  have "mymalloc ?t 0 = Some (pool 72 0 (blank(4096 := zero_md\<lparr>size_md := 8\<rparr>, 4136 := zero_md)), 4168)"
    by (simp add: conc_defs field_defs)
  moreover
  have u: "free_list ?u = 0 \<and> used ?u \<le> CAP \<and> unat CAP < unat (used ?u) + unat sizeof_md"
    by (simp add: conc_defs)
  with malloc_zero[of ?u] have "mymalloc ?u 0 = Some (?u, 0)" by blast
  ultimately show ?thesis using fc t u by simp
qed

text \<open>
  Claim C10 as stated fails in a pool that is nearly full: after a first allocation of
  \<open>CAP - 48\<close> bytes on a fresh pool, \<^verbatim>\<open>used\<close> is \<open>CAP - 16\<close> and the free list is empty, and
  \<^verbatim>\<open>mymalloc(0)\<close> returns \<^verbatim>\<open>NULL\<close>.
\<close>

theorem malloc_zero_full_pool_counterexample:
  "mymalloc fresh 134217680
     = Some (pool 134217712 0 (blank(4096 := zero_md\<lparr>size_md := 134217680\<rparr>)), 4128) \<and>
   free_list (pool 134217712 0 (blank(4096 := zero_md\<lparr>size_md := 134217680\<rparr>))) = 0 \<and>
   mymalloc (pool 134217712 0 (blank(4096 := zero_md\<lparr>size_md := 134217680\<rparr>))) 0
     = Some (pool 134217712 0 (blank(4096 := zero_md\<lparr>size_md := 134217680\<rparr>)), 0)"
  by (simp add: mymalloc_empty conc_defs field_defs)

end
